theory Spec2Isabelle
  imports Complex_Main "HOL-Library.Word" "HOL-Library.Log_Nat"
begin

section \<open>Data model of CellSearch.cpp\<close>

text \<open>
  The C++ enumerations \<^verbatim>\<open>cp_type_t\<close>, \<^verbatim>\<open>phich_duration_t\<close> and
  \<^verbatim>\<open>phich_resource_t\<close>, with the enumerators that \<^verbatim>\<open>main\<close> prints.
\<close>

datatype cp_type_t = CP_NORMAL | CP_EXTENDED | CP_UNKNOWN

datatype phich_duration_t = PD_NORMAL | PD_EXTENDED | PD_UNKNOWN

datatype phich_resource_t = PR_UNKNOWN | PR_oneSixth | PR_half | PR_one | PR_two

text \<open>
  Modelled from the spec: the class \<^verbatim>\<open>Cell\<close> is declared in \<^verbatim>\<open>common.h\<close>, which is
  not part of the given sources. The record has the members that CellSearch.cpp reads
  or tests: \<^verbatim>\<open>fc\<close> (center_frequency_hz), \<^verbatim>\<open>freq_superfine\<close>
  (fine_frequency_offset_hz), \<^verbatim>\<open>pss_pow\<close> (peak_power), \<^verbatim>\<open>n_id_1\<close>
  (secondary_sync_id, sentinel -1), \<^verbatim>\<open>n_rb_dl\<close> (downlink_bandwidth, sentinel -1),
  \<^verbatim>\<open>cp_type\<close>, \<^verbatim>\<open>phich_duration\<close>, \<^verbatim>\<open>phich_resource\<close>. The value of the
  method \<^verbatim>\<open>n_id_cell()\<close> (cell_identity, an integer identifier) is kept as a field of
  its own, so that nothing is assumed about how it is derived from the other members.
  The value of a C++ \<^verbatim>\<open>double\<close> is a real number; infinities and NaN are not
  represented.
\<close>

record Cell =
  fc :: real
  pss_pow :: real
  freq_superfine :: real
  n_id_1 :: int
  n_id_cell :: int
  n_rb_dl :: int
  cp_type :: cp_type_t
  phich_duration :: phich_duration_t
  phich_resource :: phich_resource_t

section \<open>Double-precision arithmetic\<close>

text \<open>
  The result of an operation on doubles is the exact result rounded to the nearest
  double, a tie going to the even significand (the default rounding of IEEE 754).
  \<open>rne\<close> rounds to the nearest integer in this way, \<open>expo x\<close> is the binary exponent
  of \<open>x\<close> (\<open>2^e \<le> |x| < 2^(e+1)\<close>), and \<open>fl x\<close> keeps the 53 leading bits of \<open>x\<close>.
  The exponent is not bounded: overflow and subnormal numbers are not represented.
\<close>

definition rne :: "real \<Rightarrow> int" where
  "rne x =
     (let f = \<lfloor>x\<rfloor>; d = x - of_int f
      in if d < 1 / 2 then f
         else if 1 / 2 < d then f + 1
         else if even f then f else f + 1)"

definition expo :: "real \<Rightarrow> int" where
  "expo x =
     (if 1 \<le> \<bar>x\<bar> then int (floorlog 2 (nat \<lfloor>\<bar>x\<bar>\<rfloor>)) - 1
      else - int (floorlog 2 (nat (\<lceil>1 / \<bar>x\<bar>\<rceil> - 1))))"

definition fl :: "real \<Rightarrow> real" where
  "fl x =
     (if x = 0 then 0
      else sgn x * (of_int (rne (\<bar>x\<bar> / 2 powi (expo x - 52))) * 2 powi (expo x - 52)))"

section \<open>dedup\<close>

text \<open>
  The condition of the \<^verbatim>\<open>if\<close> in the innermost loop of \<^verbatim>\<open>dedup\<close>: the detected cell
  \<open>n\<close> (\<^verbatim>\<open>*it_n\<close>) and the entry \<open>f\<close> (\<^verbatim>\<open>*it_f\<close>) of \<^verbatim>\<open>cells_final\<close> have the same
  identity and are closer than 1 MHz in frequency. The two sums and their difference are
  computed in doubles.
\<close>

definition cells_match :: "Cell \<Rightarrow> Cell \<Rightarrow> bool" where
  "cells_match n f \<longleftrightarrow>
     n_id_cell n = n_id_cell f \<and>
     \<bar>fl (fl (fc n + freq_superfine n) - fl (fc f + freq_superfine f))\<bar> < 1000000"

text \<open>
  The inner \<^verbatim>\<open>while (it_f!=cells_final.end())\<close> loop for one detected cell \<open>n\<close>. It
  returns the flag \<^verbatim>\<open>match\<close> and the list \<^verbatim>\<open>cells_final\<close> as the loop leaves it: at the
  first matching entry the entry is overwritten when \<open>n\<close> has the greater \<^verbatim>\<open>pss_pow\<close>, and
  the loop is left by \<^verbatim>\<open>break\<close>.
\<close>

fun scan_final :: "Cell \<Rightarrow> Cell list \<Rightarrow> bool \<times> Cell list" where
  "scan_final n [] = (False, [])"
| "scan_final n (f # fs) =
     (if cells_match n f
      then (True, (if pss_pow n > pss_pow f then n else f) # fs)
      else (case scan_final n fs of (match, fs') \<Rightarrow> (match, f # fs')))"

text \<open>One iteration of the loop over \<^verbatim>\<open>it_n\<close>: the scan, then \<^verbatim>\<open>push_back\<close> when nothing matched.\<close>

definition dedup_cell :: "Cell \<Rightarrow> Cell list \<Rightarrow> Cell list" where
  "dedup_cell n cells_final =
     (case scan_final n cells_final of
        (match, fs) \<Rightarrow> if \<not> match then fs @ [n] else fs)"

text \<open>The \<^verbatim>\<open>while (it_n!=detected_cells[t].end())\<close> loop over one list of detected cells.\<close>

fun dedup_list :: "Cell list \<Rightarrow> Cell list \<Rightarrow> Cell list" where
  "dedup_list [] cells_final = cells_final"
| "dedup_list (n # ns) cells_final = dedup_list ns (dedup_cell n cells_final)"

text \<open>
  The outer \<^verbatim>\<open>for (uint16 t=0;t<detected_cells.size();t++)\<close> loop. The counter is a 16-bit
  word: incrementing 65535 gives 0, so on a vector of more than 65535 lists the condition
  never becomes false and the loop does not return (the value \<open>None\<close>).
\<close>

partial_function (option) dedup_loop :: "Cell list list \<Rightarrow> 16 word \<Rightarrow> Cell list \<Rightarrow> Cell list option" where
  "dedup_loop detected_cells t cells_final =
     (if unat t < length detected_cells
      then dedup_loop detected_cells (t + 1) (dedup_list (detected_cells ! unat t) cells_final)
      else Some cells_final)"

text \<open>\<^verbatim>\<open>dedup\<close>: \<^verbatim>\<open>cells_final.clear()\<close>, then the outer loop from \<^verbatim>\<open>t=0\<close>.\<close>

definition dedup :: "Cell list list \<Rightarrow> Cell list option" where
  "dedup detected_cells = dedup_loop detected_cells 0 []"


section \<open>parse_commandline\<close>

text \<open>
  What \<^verbatim>\<open>getopt_long\<close> hands to the \<^verbatim>\<open>switch\<close>, one value per loop iteration. For the
  options with a numeric argument the value carried is the result of \<^verbatim>\<open>strtod\<close>, or
  \<open>None\<close> when the test \<^verbatim>\<open>(optarg==endp)||(*endp!='\0')\<close> fires. \<open>OPT_other\<close> stands for the
  cases \<^verbatim>\<open>0\<close>, \<^verbatim>\<open>'?'\<close> and \<^verbatim>\<open>default\<close>.
\<close>

datatype cli_option =
    OPT_h | OPT_v | OPT_b
  | OPT_s "real option" | OPT_e "real option" | OPT_p "real option" | OPT_c "real option"
  | OPT_r | OPT_l | OPT_d string | OPT_other

record params =
  freq_start :: real
  freq_end :: real
  ppm :: real
  correction :: real
  save_cap :: bool
  use_recorded_data :: bool
  data_dir :: string
  verbosity :: nat

text \<open>A call of \<^verbatim>\<open>exit\<close> with its argument; the process status is the low byte.\<close>

datatype exit_call = Exit int

fun exit_status :: "exit_call \<Rightarrow> int" where
  "exit_status (Exit n) = n mod 256"

definition default_params :: params where
  "default_params =
     \<lparr>freq_start = -1, freq_end = -1, ppm = 100, correction = 1, save_cap = False,
      use_recorded_data = False, data_dir = ''.'', verbosity = 1\<rparr>"

text \<open>The \<^verbatim>\<open>while (1)\<close> loop over the options, until \<^verbatim>\<open>getopt_long\<close> returns -1.\<close>

fun parse_options :: "params \<Rightarrow> cli_option list \<Rightarrow> exit_call + params" where
  "parse_options p [] = Inr p"
| "parse_options p (OPT_other # os) = Inl (Exit (-1))"
| "parse_options p (OPT_h # os) = Inl (Exit (-1))"
| "parse_options p (OPT_v # os) = parse_options (p\<lparr>verbosity := 2\<rparr>) os"
| "parse_options p (OPT_b # os) = parse_options (p\<lparr>verbosity := 0\<rparr>) os"
| "parse_options p (OPT_s None # os) = Inl (Exit (-1))"
| "parse_options p (OPT_s (Some x) # os) = parse_options (p\<lparr>freq_start := x\<rparr>) os"
| "parse_options p (OPT_e None # os) = Inl (Exit (-1))"
| "parse_options p (OPT_e (Some x) # os) = parse_options (p\<lparr>freq_end := x\<rparr>) os"
| "parse_options p (OPT_p None # os) = Inl (Exit (-1))"
| "parse_options p (OPT_p (Some x) # os) = parse_options (p\<lparr>ppm := x\<rparr>) os"
| "parse_options p (OPT_c None # os) = Inl (Exit (-1))"
| "parse_options p (OPT_c (Some x) # os) = parse_options (p\<lparr>correction := x\<rparr>) os"
| "parse_options p (OPT_r # os) = parse_options (p\<lparr>save_cap := True\<rparr>) os"
| "parse_options p (OPT_l # os) = parse_options (p\<lparr>use_recorded_data := True\<rparr>) os"
| "parse_options p (OPT_d d # os) = parse_options (p\<lparr>data_dir := d\<rparr>) os"

text \<open>
  \<^verbatim>\<open>itpp::round\<close> of the IT++ library: the nearest integer, as a double. IT++ rounds with
  \<^verbatim>\<open>rint\<close>, which takes a tie to the even neighbour in the default rounding mode.
\<close>

definition itpp_round :: "real \<Rightarrow> real" where
  "itpp_round x =
     (let f = \<lfloor>x\<rfloor>; d = x - of_int f
      in if d < 1 / 2 then of_int f
         else if 1 / 2 < d then of_int (f + 1)
         else if even f then of_int f else of_int (f + 1))"

text \<open>
  The checks after the option loop, in the order of the source. \<open>extra\<close> is the test
  \<^verbatim>\<open>optind < argc\<close>. The warnings only print and are left out.
\<close>

definition check_parameters :: "bool \<Rightarrow> params \<Rightarrow> exit_call + params" where
  "check_parameters extra p =
     (if extra then Inl (Exit (-1))
      else if freq_start p < 1000000 then Inl (Exit (-1))
      else
        let fs = (if freq_start p / 100000 \<noteq> itpp_round (freq_start p / 100000)
                  then itpp_round (freq_start p / 100000) * 100000 else freq_start p);
            fe = (if freq_end p = -1 then fs else freq_end p)
        in if fe < fs then Inl (Exit (-1))
           else
             let fe' = (if fe / 100000 \<noteq> itpp_round (fe / 100000)
                        then itpp_round (fe / 100000) * 100000 else fe)
             in if ppm p < 0 then Inl (Exit (-1))
                else if save_cap p \<and> use_recorded_data p then Inl (Exit (-1))
                else Inr (p\<lparr>freq_start := fs, freq_end := fe'\<rparr>))"

definition parse_commandline :: "cli_option list \<Rightarrow> bool \<Rightarrow> exit_call + params" where
  "parse_commandline opts extra =
     (case parse_options default_params opts of
        Inl e \<Rightarrow> Inl e
      | Inr p \<Rightarrow> check_parameters extra p)"

section \<open>The search grid of main\<close>

text \<open>
  \<^verbatim>\<open>floor_i\<close> of the IT++ library: the floor of a double, converted to \<^verbatim>\<open>int\<close>. The
  conversion is undefined when the floor is not a 32-bit integer (the value \<open>None\<close>).
\<close>

definition floor_i :: "real \<Rightarrow> int option" where
  "floor_i x = (if - 2147483648 \<le> \<lfloor>x\<rfloor> \<and> \<lfloor>x\<rfloor> \<le> 2147483647 then Some \<lfloor>x\<rfloor> else None)"

text \<open>
  Modelled from the spec: \<^verbatim>\<open>itpp_ext::matlab_range\<close> is defined in \<^verbatim>\<open>itpp_ext.h\<close>, which
  is not part of the given sources. On integers it is the range \<^verbatim>\<open>first:incr:last\<close>: the
  points \<open>first\<close>, \<open>first + incr\<close>, ... that do not exceed \<open>last\<close> (the spec's 5 kHz-spaced
  points from \<open>-n*5000\<close> to \<open>n*5000\<close>).
\<close>

definition matlab_range :: "int \<Rightarrow> int \<Rightarrow> int \<Rightarrow> int list" where
  "matlab_range first incr last_v =
     map (\<lambda>t. first + int t * incr) [0 ..< nat ((last_v - first) div incr + 1)]"

text \<open>
  The argument of \<^verbatim>\<open>floor_i\<close> in line 325, \<^verbatim>\<open>(freq_start*ppm/1e6+2.5e3)/5e3\<close>, as the four
  operations on doubles compute it.
\<close>

definition n_extra_arg :: "real \<Rightarrow> real \<Rightarrow> real" where
  "n_extra_arg fstart ppm_v = fl (fl (fl (fl (fstart * ppm_v) / 1000000) + 2500) / 5000)"

text \<open>
  \<^verbatim>\<open>const uint16 n_extra=floor_i((freq_start*ppm/1e6+2.5e3)/5e3)\<close>: the \<^verbatim>\<open>int\<close> is cut
  to 16 bits by the initialisation.
\<close>

definition n_extra :: "real \<Rightarrow> real \<Rightarrow> 16 word option" where
  "n_extra fstart ppm_v = map_option word_of_int (floor_i (n_extra_arg fstart ppm_v))"

text \<open>
  \<^verbatim>\<open>f_search_set\<close>: in \<^verbatim>\<open>-n_extra*5000\<close> the 16-bit value is promoted to \<^verbatim>\<open>int\<close>, and the
  products stay below \<open>2^31\<close>; \<^verbatim>\<open>to_vec\<close> turns the integers into doubles.
\<close>

definition f_search_set :: "real \<Rightarrow> real \<Rightarrow> real list option" where
  "f_search_set fstart ppm_v =
     map_option
       (\<lambda>n. map real_of_int (matlab_range (- uint n * 5000) 5000 (uint n * 5000)))
       (n_extra fstart ppm_v)"

section \<open>The detection threshold of main\<close>

text \<open>
  Modelled from the spec: \<^verbatim>\<open>chi2cdf_inv\<close> is not part of the given sources; the spec
  calls it the inverse CDF of a chi-squared distribution. \<open>chi2cdf k x\<close> is the CDF of
  the chi-squared distribution with \<open>k\<close> degrees of freedom in its closed form for an
  even \<open>k\<close> (the program only passes \<open>k = 2*n_comb_xc*5\<close>), and \<open>chi2cdf_inv p k\<close> is
  the point where it takes the value \<open>p\<close>.
\<close>

definition chi2cdf :: "nat \<Rightarrow> real \<Rightarrow> real" where
  "chi2cdf k x = 1 - exp (- (x / 2)) * (\<Sum>j<k div 2. (x / 2) ^ j / fact j)"

definition chi2cdf_inv :: "real \<Rightarrow> nat \<Rightarrow> real" where
  "chi2cdf_inv p k = (THE x. 0 \<le> x \<and> chi2cdf k x = p)"

text \<open>The upper tail of the distribution with \<open>2*m\<close> degrees of freedom, at \<open>2*y\<close>.\<close>

definition chi2_tail :: "nat \<Rightarrow> real \<Rightarrow> real" where
  "chi2_tail m y = exp (- y) * (\<Sum>j<m. y ^ j / fact j)"

definition DS_COMB_ARM :: nat where
  "DS_COMB_ARM = 2"

definition thresh1_n_nines :: nat where
  "thresh1_n_nines = 12"

text \<open>\<^verbatim>\<open>R_th1=chi2cdf_inv(1-pow(10.0,-thresh1_n_nines),2*n_comb_xc*(2*DS_COMB_ARM+1))\<close>\<close>

definition R_th1 :: "16 word \<Rightarrow> real" where
  "R_th1 n_comb_xc =
     chi2cdf_inv (1 - 10 powr (- real thresh1_n_nines)) (2 * unat n_comb_xc * (2 * DS_COMB_ARM + 1))"

text \<open>
  \<^verbatim>\<open>rx_cutoff=(6*12*15e3/2+4*15e3)/(FS_LTE/16/2)\<close>. The constant \<^verbatim>\<open>FS_LTE\<close> comes from
  \<^verbatim>\<open>constants.h\<close>, which is not part of the given sources, and is a parameter here.
\<close>

definition rx_cutoff :: "real \<Rightarrow> real" where
  "rx_cutoff FS_LTE = (6 * 12 * 15000 / 2 + 4 * 15000) / (FS_LTE / 16 / 2)"

text \<open>
  \<^verbatim>\<open>Z_th1=R_th1*sp_incoherent/rx_cutoff/137/2/n_comb_xc/(2*DS_COMB_ARM+1)\<close>, entry by
  entry of the vector \<^verbatim>\<open>sp_incoherent\<close>.
\<close>

definition Z_th1 :: "real \<Rightarrow> real list \<Rightarrow> 16 word \<Rightarrow> real list" where
  "Z_th1 FS_LTE sp_incoherent n_comb_xc =
     map (\<lambda>sp. R_th1 n_comb_xc * sp / rx_cutoff FS_LTE / 137 / 2 / real (unat n_comb_xc)
                / real (2 * DS_COMB_ARM + 1))
         sp_incoherent"

section \<open>The loop over the peaks in main\<close>

text \<open>
  What the collaborators of \<^verbatim>\<open>main\<close> do at one center frequency, with the capture buffer
  and \<^verbatim>\<open>fc\<close> of that iteration fixed: the outputs \<^verbatim>\<open>sp_incoherent\<close> and \<^verbatim>\<open>n_comb_xc\<close> of
  \<^verbatim>\<open>xcorr_pss\<close>, \<^verbatim>\<open>peak_search\<close> as a function of the threshold vector, and the five
  functions called on each peak. \<open>'g\<close> is the type of a time/frequency grid with its
  timestamps, \<open>'r\<close> the type of the \<^verbatim>\<open>RS_DL\<close> object built from \<^verbatim>\<open>n_id_cell()\<close> and
  \<^verbatim>\<open>cp_type\<close>.
\<close>

record ('g, 'r) sweep =
  sp_incoherent :: "real list"
  n_comb_xc :: "16 word"
  peak_search :: "real list \<Rightarrow> Cell list"
  sss_detect :: "Cell \<Rightarrow> Cell"
  pss_sss_foe :: "Cell \<Rightarrow> Cell"
  extract_tfg :: "Cell \<Rightarrow> 'g"
  RS_DL :: "int \<Rightarrow> cp_type_t \<Rightarrow> 'r"
  tfoec :: "Cell \<Rightarrow> 'g \<Rightarrow> 'r \<Rightarrow> Cell \<times> 'g"
  decode_mib :: "Cell \<Rightarrow> 'g \<Rightarrow> 'r \<Rightarrow> Cell"

datatype stage = SSS_DETECT | PSS_SSS_FOE | EXTRACT_TFG | TFOEC | DECODE_MIB

text \<open>
  The loop body from \<^verbatim>\<open>pss_sss_foe\<close> to \<^verbatim>\<open>decode_mib\<close>, for a cell \<open>c1\<close> that passed
  \<^verbatim>\<open>sss_detect\<close>: the cell as \<^verbatim>\<open>decode_mib\<close> returns it.
\<close>

definition after_decode :: "('g, 'r) sweep \<Rightarrow> Cell \<Rightarrow> Cell" where
  "after_decode s c1 =
     (let c2 = pss_sss_foe s c1;
          tfg = extract_tfg s c2;
          rs_dl = RS_DL s (n_id_cell c2) (cp_type c2);
          (c3, tfg_comp) = tfoec s c2 tfg rs_dl
      in decode_mib s c3 tfg_comp rs_dl)"

text \<open>
  One pass of the loop body for the peak \<open>c\<close>: the stages that were called, and the cell
  that stays in the list (\<open>None\<close> when the body erased it).
\<close>

definition examine :: "('g, 'r) sweep \<Rightarrow> Cell \<Rightarrow> stage list \<times> Cell option" where
  "examine s c =
     (let c1 = sss_detect s c
      in if n_id_1 c1 = -1 then ([SSS_DETECT], None)
         else
           let c4 = after_decode s c1
           in if n_rb_dl c4 = -1
              then ([SSS_DETECT, PSS_SSS_FOE, EXTRACT_TFG, TFOEC, DECODE_MIB], None)
              else ([SSS_DETECT, PSS_SSS_FOE, EXTRACT_TFG, TFOEC, DECODE_MIB], Some c4))"

text \<open>
  The \<^verbatim>\<open>while (iterator!=detected_cells[fci].end())\<close> loop. The list
  \<^verbatim>\<open>detected_cells[fci]\<close> is \<open>kept @ todo\<close>, with the iterator at the head of \<open>todo\<close>:
  \<^verbatim>\<open>erase\<close> drops the head, \<^verbatim>\<open>++iterator\<close> moves the examined cell to \<open>kept\<close>.
\<close>

fun check_peaks :: "('g, 'r) sweep \<Rightarrow> Cell list \<Rightarrow> Cell list \<Rightarrow> Cell list" where
  "check_peaks s kept [] = kept"
| "check_peaks s kept (c # todo) =
     (case snd (examine s c) of
        None \<Rightarrow> check_peaks s kept todo
      | Some c' \<Rightarrow> check_peaks s (kept @ [c']) todo)"

text \<open>The body of the loop over the center frequencies: \<^verbatim>\<open>detected_cells[fci]\<close> at its end.\<close>

definition peaks :: "real \<Rightarrow> ('g, 'r) sweep \<Rightarrow> Cell list" where
  "peaks FS_LTE s = peak_search s (Z_th1 FS_LTE (sp_incoherent s) (n_comb_xc s))"

definition sweep_cells :: "real \<Rightarrow> ('g, 'r) sweep \<Rightarrow> Cell list" where
  "sweep_cells FS_LTE s = check_peaks s [] (peaks FS_LTE s)"

text \<open>
  \<^verbatim>\<open>cells_final\<close> of \<^verbatim>\<open>main\<close>: one sweep for each of the \<^verbatim>\<open>n_fc\<close> center frequencies
  (\<^verbatim>\<open>n_fc\<close> is a \<^verbatim>\<open>uint16\<close>, so there are at most 65535), then \<^verbatim>\<open>dedup\<close>.
\<close>

definition cell_search :: "real \<Rightarrow> ('g, 'r) sweep list \<Rightarrow> Cell list option" where
  "cell_search FS_LTE sweeps = dedup (map (sweep_cells FS_LTE) sweeps)"

section \<open>The correction factor of main\<close>

text \<open>
  \<^verbatim>\<open>correction_new\<close> for one reported cell. The division by \<^verbatim>\<open>crystal_freq_actual\<close> has no
  finite value when that is zero (the value \<open>None\<close>).
\<close>

definition correction_new :: "real \<Rightarrow> Cell \<Rightarrow> real option" where
  "correction_new correction_v c =
     (let true_location = fc c;
          crystal_freq_actual = fc c - freq_superfine c
      in if crystal_freq_actual = 0 then None
         else
           let correction_residual = true_location / crystal_freq_actual
           in Some (correction_v * correction_residual))"

text \<open>The last column of the report, for every cell of \<^verbatim>\<open>cells_final\<close>.\<close>

definition report_corrections :: "real \<Rightarrow> Cell list \<Rightarrow> real option list" where
  "report_corrections correction_v cells_final = map (correction_new correction_v) cells_final"

section \<open>Notions of the specification and example inputs\<close>

text \<open>
  The relation ``same physical cell'' is the test \<open>cells_match\<close>. It is reflexive and
  symmetric; \<open>match_trans_on S\<close> says that on the candidates \<open>S\<close> it is transitive too,
  so that \<open>S\<close> falls into groups.
\<close>

definition match_trans_on :: "Cell set \<Rightarrow> bool" where
  "match_trans_on S \<longleftrightarrow>
     (\<forall>a\<in>S. \<forall>b\<in>S. \<forall>c\<in>S. cells_match a b \<and> cells_match b c \<longrightarrow> cells_match a c)"

text \<open>
  \<open>fs\<close> holds candidates of \<open>S\<close>, no two of them of the same group, and every candidate
  of \<open>S\<close> has an entry of its group in \<open>fs\<close> whose power is the maximum of the group.
\<close>

definition one_max_per_group :: "Cell set \<Rightarrow> Cell list \<Rightarrow> bool" where
  "one_max_per_group S fs \<longleftrightarrow>
     set fs \<subseteq> S \<and> distinct fs \<and>
     (\<forall>f\<in>set fs. \<forall>g\<in>set fs. cells_match f g \<longrightarrow> f = g) \<and>
     (\<forall>c\<in>S. \<exists>f\<in>set fs. cells_match c f \<and>
        (\<forall>d\<in>S. cells_match c d \<longrightarrow> pss_pow d \<le> pss_pow f))"

text \<open>The invariant of the loops of \<open>dedup\<close>, \<open>P\<close> being the candidates seen so far.\<close>

definition dedup_inv :: "Cell set \<Rightarrow> Cell list \<Rightarrow> bool" where
  "dedup_inv P fs \<longleftrightarrow>
     set fs \<subseteq> P \<and>
     sorted_wrt (\<lambda>f g. \<not> cells_match f g) fs \<and>
     (\<forall>c\<in>P. \<exists>f\<in>set fs. cells_match c f \<and> pss_pow c \<le> pss_pow f)"

text \<open>
  Example candidates: identity, \<^verbatim>\<open>fc\<close>, \<^verbatim>\<open>freq_superfine\<close> and \<^verbatim>\<open>pss_pow\<close> are given, the
  other members are those of a decoded cell.
\<close>

definition candidate :: "int \<Rightarrow> real \<Rightarrow> real \<Rightarrow> real \<Rightarrow> Cell" where
  "candidate i f s p =
     \<lparr>fc = f, pss_pow = p, freq_superfine = s, n_id_1 = i div 3, n_id_cell = i, n_rb_dl = 6,
      cp_type = CP_NORMAL, phich_duration = PD_NORMAL, phich_resource = PR_one\<rparr>"

text \<open>
  Three detections of the cell 301, at 738.96 MHz, 739.97 MHz and 739.93 MHz: \<open>cell_Z\<close> is
  within 1 MHz of the other two, which are 1.01 MHz apart. \<open>cell_T\<close> is as strong as
  \<open>cell_X\<close> and 140 kHz from it, \<open>cell_W\<close> is another cell.
\<close>

definition cell_X :: Cell where "cell_X = candidate 301 739000000 (- 40000) 1"

definition cell_Y :: Cell where "cell_Y = candidate 301 739900000 70000 2"

definition cell_Z :: Cell where "cell_Z = candidate 301 740000000 (- 70000) 3"

definition cell_T :: Cell where "cell_T = candidate 301 739100000 0 1"

definition cell_W :: Cell where "cell_W = candidate 77 739100000 5000 4"

text \<open>The double nearest to 4.8.\<close>

definition double_4_8 :: real where
  "double_4_8 = 5404319552844595 / 1125899906842624"

text \<open>
  An example sweep with the peaks \<open>cell_Z\<close>, \<open>cell_W\<close>, \<open>cell_Y\<close>, \<open>cell_X\<close>: \<^verbatim>\<open>sss_detect\<close>
  finds no SSS for the peak of power 3, \<^verbatim>\<open>pss_sss_foe\<close> adds 10 Hz to the offset, and
  \<^verbatim>\<open>decode_mib\<close> decodes no MIB for the peak of power 2.
\<close>

definition demo_sweep :: "(unit, unit) sweep" where
  "demo_sweep =
     \<lparr>sp_incoherent = [1], n_comb_xc = 1,
      peak_search = (\<lambda>Z. [cell_Z, cell_W, cell_Y, cell_X]),
      sss_detect = (\<lambda>c. if pss_pow c = 3 then c\<lparr>n_id_1 := -1\<rparr> else c),
      pss_sss_foe = (\<lambda>c. c\<lparr>freq_superfine := freq_superfine c + 10\<rparr>),
      extract_tfg = (\<lambda>c. ()),
      RS_DL = (\<lambda>i t. ()),
      tfoec = (\<lambda>c g r. (c, g)),
      decode_mib = (\<lambda>c g r. if pss_pow c = 2 then c\<lparr>n_rb_dl := -1\<rparr> else c)\<rparr>"

text \<open>The outcome of \<^verbatim>\<open>parse_commandline\<close> is a call of \<^verbatim>\<open>exit\<close> with a nonzero process status.\<close>

definition fatal :: "exit_call + params \<Rightarrow> bool" where
  "fatal r = (case r of Inl e \<Rightarrow> exit_status e \<noteq> 0 | Inr p \<Rightarrow> False)"


section \<open>Properties of the rounding\<close>

lemma rne_of_int: "rne (of_int k) = k"
  by (simp add: rne_def)

lemma rne_err: "\<bar>of_int (rne z) - z\<bar> \<le> 1 / 2"
  unfolding rne_def Let_def by (auto simp: abs_le_iff)

lemma rne_nonneg: "0 \<le> z \<Longrightarrow> 0 \<le> rne z"
  unfolding rne_def Let_def by (auto simp: zero_le_floor)


lemma floorlog2_real_bounds:
  assumes "0 < n"
  shows "(2::real) ^ (floorlog 2 n - 1) \<le> real n" and "real n + 1 \<le> 2 ^ floorlog 2 n"
proof -
  have b: "2 ^ (floorlog 2 n - 1) \<le> n" "n < 2 ^ floorlog 2 n"
    using floorlog_bounds [of n 2] assms by simp_all
  have "real (2 ^ (floorlog 2 n - 1)) \<le> real n" using b(1) by (simp only: of_nat_le_iff)
  then show "(2::real) ^ (floorlog 2 n - 1) \<le> real n" by simp
  have "n + 1 \<le> 2 ^ floorlog 2 n" using b(2) by simp
  then have "real (n + 1) \<le> real (2 ^ floorlog 2 n)" by (simp only: of_nat_le_iff)
  then show "real n + 1 \<le> 2 ^ floorlog 2 n" by simp
qed

lemma floorlog2_pos: "0 < n \<Longrightarrow> 1 \<le> floorlog 2 n"
  by (simp add: floorlog_def)

lemma expo_ge1:
  assumes "1 \<le> \<bar>x\<bar>"
  shows "2 powi (expo x) \<le> \<bar>x\<bar>" and "\<bar>x\<bar> < 2 powi (expo x + 1)"
proof -
  define n where "n = nat \<lfloor>\<bar>x\<bar>\<rfloor>"
  have fl1: "1 \<le> \<lfloor>\<bar>x\<bar>\<rfloor>" using assms by linarith
  then have n0: "0 < n" by (simp add: n_def)
  have rn: "real n = of_int \<lfloor>\<bar>x\<bar>\<rfloor>" using fl1 by (simp add: n_def)
  have nx: "real n \<le> \<bar>x\<bar>" "\<bar>x\<bar> < real n + 1" unfolding rn by linarith+
  have e: "expo x = int (floorlog 2 n) - 1" using assms by (simp add: expo_def n_def)
  have e1: "expo x = int (floorlog 2 n - 1)" using e floorlog2_pos [OF n0] by simp
  have "2 powi (expo x) = (2::real) ^ (floorlog 2 n - 1)" by (simp only: e1 power_int_of_nat)
  then show "2 powi (expo x) \<le> \<bar>x\<bar>"
    using floorlog2_real_bounds(1) [OF n0] nx(1) by linarith
  have "expo x + 1 = int (floorlog 2 n)" using e by simp
  then have "2 powi (expo x + 1) = (2::real) ^ floorlog 2 n" by (simp only: power_int_of_nat)
  then show "\<bar>x\<bar> < 2 powi (expo x + 1)"
    using floorlog2_real_bounds(2) [OF n0] nx(2) by linarith
qed

lemma expo_lt1:
  assumes "x \<noteq> 0" and "\<not> 1 \<le> \<bar>x\<bar>"
  shows "2 powi (expo x) \<le> \<bar>x\<bar>" and "\<bar>x\<bar> < 2 powi (expo x + 1)"
proof -
  define m where "m = nat (\<lceil>1 / \<bar>x\<bar>\<rceil> - 1)"
  define k where "k = floorlog 2 m"
  have x0: "0 < \<bar>x\<bar>" using assms(1) by simp
  have "1 < 1 / \<bar>x\<bar>" using assms(2) x0 by simp
  then have c2: "2 \<le> \<lceil>1 / \<bar>x\<bar>\<rceil>" by linarith
  then have m0: "0 < m" by (simp add: m_def)
  have im: "int m = \<lceil>1 / \<bar>x\<bar>\<rceil> - 1" using c2 unfolding m_def by linarith
  have "real m = of_int (int m)" by simp
  then have rm: "real m = of_int \<lceil>1 / \<bar>x\<bar>\<rceil> - 1" unfolding im by simp
  have mx: "real m < 1 / \<bar>x\<bar>" "1 / \<bar>x\<bar> \<le> real m + 1" unfolding rm by linarith+
  have k1: "1 \<le> k" unfolding k_def using m0 by (rule floorlog2_pos)
  have e: "expo x = - int k" using assms(2) by (simp add: expo_def m_def k_def)
  have "1 / \<bar>x\<bar> \<le> 2 ^ k"
    using floorlog2_real_bounds(2) [OF m0] mx(2) unfolding k_def by linarith
  then have "1 / 2 ^ k \<le> \<bar>x\<bar>" using x0 by (simp add: field_simps)
  then show "2 powi (expo x) \<le> \<bar>x\<bar>"
    by (simp only: e power_int_minus_divide power_int_of_nat)
  have "(2::real) ^ (k - 1) < 1 / \<bar>x\<bar>"
    using floorlog2_real_bounds(1) [OF m0] mx(1) unfolding k_def by linarith
  then have lt: "\<bar>x\<bar> < 1 / 2 ^ (k - 1)" using x0 by (simp add: field_simps)
  have "expo x + 1 = - int (k - 1)" using e k1 by simp
  then show "\<bar>x\<bar> < 2 powi (expo x + 1)"
    using lt by (simp only: power_int_minus_divide power_int_of_nat)
qed

lemma expo_bounds:
  assumes "x \<noteq> 0"
  shows "2 powi (expo x) \<le> \<bar>x\<bar>" and "\<bar>x\<bar> < 2 powi (expo x + 1)"
  using assms expo_ge1 [of x] expo_lt1 [of x] by blast+

lemma fl_0: "fl 0 = 0"
  by (simp add: fl_def)

lemma expo_minus: "expo (- x) = expo x"
  by (simp add: expo_def)

lemma fl_minus: "fl (- x) = - fl x"
  by (simp add: fl_def expo_minus sgn_minus)

lemma fl_nonneg: "0 \<le> x \<Longrightarrow> 0 \<le> fl x"
  by (simp add: fl_def rne_nonneg sgn_if)

lemma pos_of_powi_le:
  assumes "2 powi e \<le> \<bar>x::real\<bar>"
  shows "x \<noteq> 0"
proof -
  have "(0::real) < 2 powi e" by simp
  then have "0 < \<bar>x\<bar>" using assms by linarith
  then show ?thesis by simp
qed

lemma expo_unique:
  assumes "2 powi e \<le> \<bar>x\<bar>" and "\<bar>x\<bar> < 2 powi (e + 1)"
  shows "expo x = e"
proof -
  have x0: "x \<noteq> 0" using assms(1) by (rule pos_of_powi_le)
  have a: "expo x < e + 1"
  proof (rule ccontr)
    assume "\<not> expo x < e + 1"
    then have "(2::real) powi (e + 1) \<le> 2 powi (expo x)"
      by (intro power_int_increasing) simp_all
    then show False using expo_bounds(1) [OF x0] assms(2) by linarith
  qed
  have b: "e < expo x + 1"
  proof (rule ccontr)
    assume "\<not> e < expo x + 1"
    then have "(2::real) powi (expo x + 1) \<le> 2 powi e"
      by (intro power_int_increasing) simp_all
    then show False using expo_bounds(2) [OF x0] assms(1) by linarith
  qed
  show ?thesis using a b by simp
qed

lemma fl_eval:
  assumes "2 powi e \<le> \<bar>x\<bar>" and "\<bar>x\<bar> < 2 powi (e + 1)"
  shows "fl x = sgn x * (of_int (rne (\<bar>x\<bar> / 2 powi (e - 52))) * 2 powi (e - 52))"
proof -
  have "x \<noteq> 0" using assms(1) by (rule pos_of_powi_le)
  then show ?thesis by (simp add: fl_def expo_unique [OF assms])
qed

lemma fl_err:
  "\<bar>fl x - x\<bar> \<le> \<bar>x\<bar> / 2 ^ 53"
proof (cases "x = 0")
  case True
  then show ?thesis by (simp add: fl_0)
next
  case False
  define u :: real where "u = 2 powi (expo x - 52)"
  define z where "z = \<bar>x\<bar> / u"
  have u0: "0 < u" by (simp add: u_def)
  have zx: "z * u = \<bar>x\<bar>" using u0 by (simp add: z_def)
  have "fl x = sgn x * (of_int (rne z) * u)" using False by (simp add: fl_def u_def z_def)
  moreover have "x = sgn x * (z * u)" by (simp add: zx sgn_mult_abs)
  ultimately have "fl x - x = sgn x * ((of_int (rne z) - z) * u)" by (simp add: algebra_simps)
  then have "\<bar>fl x - x\<bar> = \<bar>of_int (rne z) - z\<bar> * u"
    using False u0 by (simp add: abs_mult abs_sgn_eq)
  also have "\<dots> \<le> 1 / 2 * u" using rne_err [of z] u0 by (intro mult_right_mono) simp_all
  also have "1 / 2 * u = 2 powi (expo x) / 2 ^ 53"
  proof -
    have "(2::real) powi (expo x - 52) = 2 powi (expo x) / 2 powi 52"
      by (simp add: power_int_diff)
    then show ?thesis by (simp add: u_def)
  qed
  also have "\<dots> \<le> \<bar>x\<bar> / 2 ^ 53"
    using expo_bounds(1) [OF False] by (intro divide_right_mono) simp_all
  finally show ?thesis .
qed

lemma fl_exact:
  assumes "x \<in> \<int>" and "\<bar>x\<bar> < 2 ^ 53"
  shows "fl x = x"
proof (cases "x = 0")
  case True
  then show ?thesis by (simp add: fl_0)
next
  case False
  obtain j where j: "x = of_int j" using assms(1) by (auto elim: Ints_cases)
  have e: "expo x \<le> 52"
  proof (rule ccontr)
    assume "\<not> expo x \<le> 52"
    then have "(2::real) powi 53 \<le> 2 powi (expo x)"
      by (intro power_int_increasing) simp_all
    then show False using expo_bounds(1) [OF False] assms(2) by simp
  qed
  define d where "d = nat (52 - expo x)"
  have "expo x - 52 = - int d" using e by (simp add: d_def)
  then have u: "(2::real) powi (expo x - 52) = 1 / 2 ^ d"
    by (simp only: power_int_minus_divide power_int_of_nat)
  have "\<bar>x\<bar> / (1 / 2 ^ d) = of_int (\<bar>j\<bar> * 2 ^ d)" by (simp add: j)
  then have "rne (\<bar>x\<bar> / (1 / 2 ^ d)) = \<bar>j\<bar> * 2 ^ d" by (simp only: rne_of_int)
  then have "fl x = sgn x * (of_int (\<bar>j\<bar> * 2 ^ d) * (1 / 2 ^ d))"
    using False by (simp add: fl_def u)
  also have "\<dots> = sgn x * \<bar>x\<bar>" by (simp add: j)
  finally show ?thesis by (simp add: sgn_mult_abs)
qed

lemma fl_rel:
  assumes "0 \<le> x"
  shows "x * (1 - 1 / 2 ^ 53) \<le> fl x" and "fl x \<le> x * (1 + 1 / 2 ^ 53)"
proof -
  have "\<bar>fl x - x\<bar> \<le> x / 2 ^ 53" using fl_err [of x] assms by simp
  then have "- (x / 2 ^ 53) \<le> fl x - x" "fl x - x \<le> x / 2 ^ 53" by linarith+
  then show "x * (1 - 1 / 2 ^ 53) \<le> fl x" and "fl x \<le> x * (1 + 1 / 2 ^ 53)"
    by (simp_all add: algebra_simps)
qed

section \<open>Properties of dedup\<close>

subsection \<open>The outer loop as a fold\<close>

lemma dedup_list_foldl: "dedup_list ns fs = foldl (\<lambda>acc n. dedup_cell n acc) fs ns"
  by (induction ns arbitrary: fs) simp_all

lemma dedup_list_append: "dedup_list (ms @ ns) fs = dedup_list ns (dedup_list ms fs)"
  by (induction ms arbitrary: fs) simp_all

lemma dedup_loop_drop:
  assumes "length dc < 65536" and "unat t \<le> length dc"
  shows "dedup_loop dc t fs = Some (dedup_list (concat (drop (unat t) dc)) fs)"
  using assms
proof (induction "length dc - unat t" arbitrary: t fs)
  case 0
  then have "drop (unat t) dc = []" by simp
  with 0 show ?case by (subst dedup_loop.simps) simp
next
  case (Suc k)
  then have lt: "unat t < length dc" by simp
  with Suc.prems have "unat t + 1 < 65536" by simp
  then have u: "unat (t + 1) = unat t + 1"
    by (simp add: unat_word_ariths)
  have "dedup_loop dc (t + 1) (dedup_list (dc ! unat t) fs) =
        Some (dedup_list (concat (drop (unat (t + 1)) dc)) (dedup_list (dc ! unat t) fs))"
    using Suc.hyps(2) Suc.prems lt u by (intro Suc.hyps(1)) simp_all
  moreover have "drop (unat t) dc = dc ! unat t # drop (unat (t + 1)) dc"
    using lt u by (simp add: Cons_nth_drop_Suc)
  ultimately show ?case
    using lt by (subst dedup_loop.simps) (simp add: dedup_list_append)
qed

lemma dedup_concat:
  "length dc < 65536 \<Longrightarrow> dedup dc = Some (dedup_list (concat dc) [])"
  using dedup_loop_drop [of dc 0 "[]"] by (simp add: dedup_def)

text \<open>On 65536 lists or more the counter wraps around and \<open>dedup\<close> does not return.\<close>

lemma dedup_loop_Some_length:
  assumes "dedup_loop dc t fs = Some r"
  shows "length dc < 65536"
proof (induction dc t fs r rule: dedup_loop.raw_induct)
  case (1 loop dc t fs r)
  show ?case
  proof (cases "unat t < length dc")
    case True
    then have "loop dc (t + 1) (dedup_list (dc ! unat t) fs) = Some r"
      using 1 by simp
    then show ?thesis by (rule 1(1))
  next
    case False
    moreover have "unat t < 65536" using unsigned_less [of t, where ?'a = nat] by simp
    ultimately show ?thesis by simp
  qed
qed (rule assms)

lemma dedup_returns_iff: "dedup dc \<noteq> None \<longleftrightarrow> length dc < 65536"
  using dedup_loop_Some_length [of dc 0 "[]"] dedup_concat [of dc]
  by (auto simp: dedup_def)

subsection \<open>One detected cell against the list\<close>

lemma cells_match_refl: "cells_match c c"
  by (simp add: cells_match_def fl_0)

lemma cells_match_sym: "cells_match a b \<longleftrightarrow> cells_match b a"
proof -
  have "\<bar>fl (x - y)\<bar> = \<bar>fl (y - x)\<bar>" for x y
    using fl_minus [of "x - y"] by simp
  then show ?thesis by (auto simp: cells_match_def)
qed

lemma scan_final_no_match:
  "\<forall>f\<in>set fs. \<not> cells_match n f \<Longrightarrow> scan_final n fs = (False, fs)"
  by (induction fs) simp_all

lemma scan_final_first_match:
  "\<forall>g\<in>set pre. \<not> cells_match n g \<Longrightarrow> cells_match n f \<Longrightarrow>
     scan_final n (pre @ f # post) = (True, pre @ (if pss_pow f < pss_pow n then n else f) # post)"
  by (induction pre) simp_all

lemma dedup_cell_no_match:
  "\<forall>f\<in>set fs. \<not> cells_match n f \<Longrightarrow> dedup_cell n fs = fs @ [n]"
  by (simp add: dedup_cell_def scan_final_no_match)

lemma dedup_cell_first_match:
  "\<forall>g\<in>set pre. \<not> cells_match n g \<Longrightarrow> cells_match n f \<Longrightarrow>
     dedup_cell n (pre @ f # post) = pre @ (if pss_pow f < pss_pow n then n else f) # post"
  by (simp add: dedup_cell_def scan_final_first_match)

text \<open>
  C10. When the incoming cell \<open>n\<close> matches the entry at position \<open>k\<close> of the result list
  and no earlier entry, the entry is replaced exactly when \<open>n\<close> has the strictly greater
  \<open>pss_pow\<close>; with equal powers the list stays as it is: the first-seen entry is kept and \<open>n\<close>
  is discarded.
\<close>

theorem dedup_cell_strict_replace:
  assumes "k < length fs" and "cells_match n (fs ! k)" and "\<forall>j<k. \<not> cells_match n (fs ! j)"
  shows "dedup_cell n fs = (if pss_pow (fs ! k) < pss_pow n then fs[k := n] else fs)
       \<and> (pss_pow n = pss_pow (fs ! k) \<longrightarrow> dedup_cell n fs = fs)"
proof -
  have fs: "fs = take k fs @ fs ! k # drop (Suc k) fs"
    using assms(1) by (simp add: id_take_nth_drop)
  have pre: "\<forall>g\<in>set (take k fs). \<not> cells_match n g"
    using assms(1,3) by (auto simp: in_set_conv_nth)
  have "dedup_cell n (take k fs @ fs ! k # drop (Suc k) fs) =
        take k fs @ (if pss_pow (fs ! k) < pss_pow n then n else fs ! k) # drop (Suc k) fs"
    using pre assms(2) by (rule dedup_cell_first_match)
  moreover have "fs[k := n] = take k fs @ n # drop (Suc k) fs"
    using assms(1) by (simp add: upd_conv_take_nth_drop)
  ultimately have "dedup_cell n fs = (if pss_pow (fs ! k) < pss_pow n then fs[k := n] else fs)"
    using fs by (metis (full_types))
  then show ?thesis by simp
qed

subsection \<open>The example candidates\<close>

lemmas ex_cells = candidate_def cell_X_def cell_Y_def cell_Z_def cell_T_def cell_W_def

text \<open>
  The list holds \<open>cell_W\<close> and \<open>cell_X\<close>. \<open>cell_T\<close> matches \<open>cell_X\<close> with the same power and
  leaves the list as it is; the stronger \<open>cell_Z\<close> takes the place of \<open>cell_X\<close>.
\<close>

theorem dedup_cell_strict_replace_witness:
  "(1::nat) < length [cell_W, cell_X] \<and> cells_match cell_T ([cell_W, cell_X] ! 1) \<and>
   \<not> cells_match cell_T ([cell_W, cell_X] ! 0) \<and> pss_pow cell_T = pss_pow cell_X \<and>
   dedup_cell cell_T [cell_W, cell_X] = [cell_W, cell_X] \<and>
   dedup_cell cell_Z [cell_W, cell_X] = [cell_W, cell_Z]"
proof -
  have m: "cells_match cell_T ([cell_W, cell_X] ! 1)" "cells_match cell_Z ([cell_W, cell_X] ! 1)"
    by (simp_all add: cells_match_def ex_cells fl_exact)
  have n: "\<forall>j<1::nat. \<not> cells_match cell_T ([cell_W, cell_X] ! j)"
    "\<forall>j<1::nat. \<not> cells_match cell_Z ([cell_W, cell_X] ! j)"
    by (simp_all add: cells_match_def ex_cells fl_exact)
  have p: "pss_pow cell_T = pss_pow cell_X" "pss_pow cell_X < pss_pow cell_Z"
    by (simp_all add: ex_cells)
  show ?thesis
    using dedup_cell_strict_replace [of 1 "[cell_W, cell_X]" cell_T, OF _ m(1) n(1)]
      dedup_cell_strict_replace [of 1 "[cell_W, cell_X]" cell_Z, OF _ m(2) n(2)] m n p
    by simp
qed

subsection \<open>The invariant of the loops\<close>

lemma dedup_inv_empty: "dedup_inv {} []"
  by (simp add: dedup_inv_def)

lemma dedup_inv_step:
  assumes inv: "dedup_inv P fs" and tr: "match_trans_on S" and PS: "P \<subseteq> S" and nS: "n \<in> S"
  shows "dedup_inv (insert n P) (dedup_cell n fs)"
proof (cases "\<exists>f\<in>set fs. cells_match n f")
  case False
  then have eq: "dedup_cell n fs = fs @ [n]" by (simp add: dedup_cell_no_match)
  have "\<forall>f\<in>set fs. \<not> cells_match f n"
    using False cells_match_sym by blast
  then have "sorted_wrt (\<lambda>f g. \<not> cells_match f g) (fs @ [n])"
    using inv by (simp add: dedup_inv_def sorted_wrt_append)
  moreover have "\<forall>c\<in>insert n P. \<exists>f\<in>set (fs @ [n]). cells_match c f \<and> pss_pow c \<le> pss_pow f"
    using inv cells_match_refl by (auto simp: dedup_inv_def)
  moreover have "set (fs @ [n]) \<subseteq> insert n P"
    using inv by (auto simp: dedup_inv_def)
  ultimately show ?thesis by (simp add: eq dedup_inv_def)
next
  case True
  then obtain pre f post where fs: "fs = pre @ f # post" and mf: "cells_match n f"
    and np: "\<forall>g\<in>set pre. \<not> cells_match n g"
    using split_list_first_prop [of fs "cells_match n"] by blast
  have eq: "dedup_cell n fs = pre @ (if pss_pow f < pss_pow n then n else f) # post"
    using np mf by (simp add: fs dedup_cell_first_match)
  have sub: "set fs \<subseteq> P" and sw: "sorted_wrt (\<lambda>f g. \<not> cells_match f g) fs"
    and cov: "\<forall>c\<in>P. \<exists>f\<in>set fs. cells_match c f \<and> pss_pow c \<le> pss_pow f"
    using inv by (simp_all add: dedup_inv_def)
  have fS: "f \<in> S" using sub PS fs by auto
  show ?thesis
  proof (cases "pss_pow f < pss_pow n")
    case False
    then have "dedup_cell n fs = fs" using eq unfolding fs by simp
    moreover have "\<exists>g\<in>set fs. cells_match n g \<and> pss_pow n \<le> pss_pow g"
      using False mf fs by auto
    ultimately show ?thesis
      using sub sw cov by (auto simp: dedup_inv_def)
  next
    case stronger: True
    then have eq': "dedup_cell n fs = pre @ n # post" by (simp add: eq)
    have other: "\<not> cells_match g n" if "g \<in> set pre \<union> set post" for g
    proof
      assume gn: "cells_match g n"
      have gS: "g \<in> S" using that sub PS fs by auto
      have "cells_match g f" using tr gS nS fS gn mf unfolding match_trans_on_def by blast
      moreover have "\<not> cells_match g f \<and> \<not> cells_match f g"
        using sw that cells_match_sym by (auto simp: fs sorted_wrt_append)
      ultimately show False by simp
    qed
    have sw': "sorted_wrt (\<lambda>f g. \<not> cells_match f g) (pre @ n # post)"
      using sw other cells_match_sym by (auto simp: fs sorted_wrt_append)
    have cov': "\<exists>h\<in>set (pre @ n # post). cells_match c h \<and> pss_pow c \<le> pss_pow h"
      if "c \<in> insert n P" for c
    proof (cases "c = n")
      case True
      then show ?thesis using cells_match_refl by auto
    next
      case False
      then have cP: "c \<in> P" using that by simp
      then obtain h where h: "h \<in> set fs" "cells_match c h" "pss_pow c \<le> pss_pow h"
        using cov by blast
      show ?thesis
      proof (cases "h = f")
        case True
        have "cells_match f n" using mf cells_match_sym by blast
        then have "cells_match c n"
          using tr cP PS fS nS h(2) True unfolding match_trans_on_def by blast
        moreover have "pss_pow c \<le> pss_pow n" using h(3) True stronger by simp
        ultimately show ?thesis by auto
      next
        case False
        then have "h \<in> set (pre @ n # post)" using h(1) fs by auto
        then show ?thesis using h by blast
      qed
    qed
    have "set (pre @ n # post) \<subseteq> insert n P" using sub fs by auto
    then show ?thesis using sw' cov' by (simp add: eq' dedup_inv_def)
  qed
qed

lemma dedup_inv_list:
  assumes "match_trans_on S" and "set ns \<subseteq> S" and "P \<subseteq> S" and "dedup_inv P fs"
  shows "dedup_inv (P \<union> set ns) (dedup_list ns fs)"
  using assms(2-)
proof (induction ns arbitrary: P fs)
  case Nil
  then show ?case by simp
next
  case (Cons n ns)
  have "dedup_inv (insert n P) (dedup_cell n fs)"
    using Cons.prems assms(1) by (intro dedup_inv_step [where S = S]) simp_all
  then have "dedup_inv (insert n P \<union> set ns) (dedup_list ns (dedup_cell n fs))"
    using Cons.prems by (intro Cons.IH) simp_all
  then show ?case by simp
qed

lemma sorted_wrt_no_match_unique:
  assumes "sorted_wrt (\<lambda>f g. \<not> cells_match f g) fs" "f \<in> set fs" "g \<in> set fs" "cells_match f g"
  shows "f = g"
proof (rule ccontr)
  assume "f \<noteq> g"
  then obtain i j where ij: "i < length fs" "j < length fs" "fs ! i = f" "fs ! j = g" "i \<noteq> j"
    using assms(2,3) by (metis in_set_conv_nth)
  then consider "i < j" | "j < i" by linarith
  then show False
  proof cases
    case 1
    then have "\<not> cells_match (fs ! i) (fs ! j)"
      using assms(1) ij(2) by (simp add: sorted_wrt_iff_nth_less)
    then show False using ij assms(4) by simp
  next
    case 2
    then have "\<not> cells_match (fs ! j) (fs ! i)"
      using assms(1) ij(1) by (simp add: sorted_wrt_iff_nth_less)
    then show False using ij assms(4) cells_match_sym by blast
  qed
qed

lemma sorted_wrt_no_match_distinct:
  "sorted_wrt (\<lambda>f g. \<not> cells_match f g) fs \<Longrightarrow> distinct fs"
  by (induction fs) (auto simp: cells_match_refl)

lemma dedup_inv_one_max:
  assumes inv: "dedup_inv S fs" and tr: "match_trans_on S"
  shows "one_max_per_group S fs"
proof -
  have sub: "set fs \<subseteq> S" and sw: "sorted_wrt (\<lambda>f g. \<not> cells_match f g) fs"
    and cov: "\<forall>c\<in>S. \<exists>f\<in>set fs. cells_match c f \<and> pss_pow c \<le> pss_pow f"
    using inv by (simp_all add: dedup_inv_def)
  have uniq: "\<forall>f\<in>set fs. \<forall>g\<in>set fs. cells_match f g \<longrightarrow> f = g"
    using sw sorted_wrt_no_match_unique by blast
  have "\<exists>f\<in>set fs. cells_match c f \<and> (\<forall>d\<in>S. cells_match c d \<longrightarrow> pss_pow d \<le> pss_pow f)"
    if cS: "c \<in> S" for c
  proof -
    obtain f where f: "f \<in> set fs" "cells_match c f" using cov cS by blast
    have "pss_pow d \<le> pss_pow f" if dS: "d \<in> S" and cd: "cells_match c d" for d
    proof -
      obtain g where g: "g \<in> set fs" "cells_match d g" "pss_pow d \<le> pss_pow g"
        using cov dS by blast
      have "cells_match f c" using f(2) cells_match_sym by blast
      then have "cells_match f d"
        using tr cd f(1) sub cS dS unfolding match_trans_on_def by blast
      then have "cells_match f g"
        using tr g(1,2) f(1) sub dS unfolding match_trans_on_def by blast
      then have "f = g" using uniq f(1) g(1) by blast
      then show ?thesis using g(3) by simp
    qed
    then show ?thesis using f by blast
  qed
  then show ?thesis
    using sub uniq sw by (simp add: one_max_per_group_def sorted_wrt_no_match_distinct)
qed

text \<open>
  On an input on which the test is transitive the loops keep exactly one candidate of
  every group, one of maximum power.
\<close>

lemma dedup_one_max:
  assumes "length xss < 65536" and "match_trans_on (set (concat xss))"
  shows "\<exists>fs. dedup xss = Some fs \<and> one_max_per_group (set (concat xss)) fs"
proof -
  have "dedup_inv ({} \<union> set (concat xss)) (dedup_list (concat xss) [])"
    using assms(2) by (intro dedup_inv_list [where S = "set (concat xss)"]) (simp_all add: dedup_inv_empty)
  then show ?thesis
    using assms by (simp add: dedup_concat dedup_inv_one_max)
qed

lemma match_facts:
  "cells_match cell_X cell_Z" "cells_match cell_Z cell_X" "cells_match cell_Y cell_Z"
  "cells_match cell_Z cell_Y" "\<not> cells_match cell_X cell_Y" "\<not> cells_match cell_Y cell_X"
  "\<not> cells_match cell_W cell_X" "\<not> cells_match cell_W cell_Z" "\<not> cells_match cell_X cell_W"
  "\<not> cells_match cell_Z cell_W" "\<not> cells_match cell_W cell_Y" "\<not> cells_match cell_Y cell_W"
  by (simp_all add: cells_match_def ex_cells fl_exact)

lemma pow_facts:
  "pss_pow cell_X = 1" "pss_pow cell_Y = 2" "pss_pow cell_Z = 3" "pss_pow cell_W = 4"
  "pss_pow cell_T = 1"
  by (simp_all add: ex_cells)

lemma distinct_facts:
  "cell_X \<noteq> cell_Y" "cell_X \<noteq> cell_Z" "cell_Y \<noteq> cell_Z" "cell_W \<noteq> cell_X" "cell_W \<noteq> cell_Z"
  "cell_W \<noteq> cell_Y"
  by (simp_all add: ex_cells)

text \<open>
  The sums of the test are rounded: a cell at \<open>739e6 + 2^-25\<close> Hz is taken at 739 MHz and does
  not match a cell at 740 MHz, although the exact difference is below 1 MHz.
\<close>

lemma cells_match_rounds_sum:
  "\<not> cells_match (candidate 301 739000000 (1 / 2 ^ 25) 1) (candidate 301 740000000 0 2) \<and>
   \<bar>(739000000 + 1 / 2 ^ 25) - (740000000 + 0)\<bar> < (1000000::real)"
proof -
  have "fl (739000000 + 1 / 2 ^ 25) =
        sgn (739000000 + 1 / 2 ^ 25 :: real) *
          (of_int (rne (\<bar>739000000 + 1 / 2 ^ 25\<bar> / 2 powi (29 - 52))) * 2 powi (29 - 52))"
    by (rule fl_eval) simp_all
  also have "\<dots> = 739000000"
    by (simp add: rne_def Let_def power_int_minus_divide)
  finally have "fl (739000000 + 1 / 2 ^ 25) = 739000000" .
  then show ?thesis
    by (simp add: cells_match_def candidate_def fl_exact)
qed

text \<open>
  C2. The claim does not hold of the code: on the three detections of the cell 301 the
  members of the output depend on the processing order, and the candidate kept is not the
  one of maximum power. Processed as \<open>cell_X\<close>, \<open>cell_Y\<close>, \<open>cell_Z\<close> the output keeps \<open>cell_Y\<close>
  beside \<open>cell_Z\<close>, which matches it and is stronger; processed as \<open>cell_X\<close>, \<open>cell_Z\<close>,
  \<open>cell_Y\<close> it keeps \<open>cell_Z\<close> alone. After \<open>cell_Z\<close> has overwritten \<open>cell_X\<close>, the loop never
  compares it with the rest of the list.
\<close>

theorem dedup_depends_on_order:
  "set (concat [[cell_X], [cell_Y], [cell_Z]]) = set (concat [[cell_X], [cell_Z], [cell_Y]]) \<and>
   dedup [[cell_X], [cell_Y], [cell_Z]] = Some [cell_Z, cell_Y] \<and>
   dedup [[cell_X], [cell_Z], [cell_Y]] = Some [cell_Z] \<and>
   set [cell_Z, cell_Y] \<noteq> set [cell_Z] \<and>
   cells_match cell_Y cell_Z \<and> pss_pow cell_Y < pss_pow cell_Z"
proof -
  have "set (concat [[cell_X], [cell_Y], [cell_Z]]) = set (concat [[cell_X], [cell_Z], [cell_Y]])"
    by auto
  moreover have "dedup [[cell_X], [cell_Y], [cell_Z]] = Some [cell_Z, cell_Y]"
    by (simp add: dedup_concat dedup_cell_def match_facts pow_facts)
  moreover have "dedup [[cell_X], [cell_Z], [cell_Y]] = Some [cell_Z]"
    by (simp add: dedup_concat dedup_cell_def match_facts pow_facts)
  moreover have "set [cell_Z, cell_Y] \<noteq> set [cell_Z]"
    using distinct_facts by auto
  ultimately show ?thesis by (simp add: match_facts pow_facts)
qed


section \<open>Properties of the loop over the peaks\<close>

lemma set_scan_final: "set (snd (scan_final n fs)) \<subseteq> insert n (set fs)"
  by (induction fs) (auto simp: case_prod_beta)

lemma set_dedup_cell: "set (dedup_cell n fs) \<subseteq> insert n (set fs)"
  using set_scan_final [of n fs] by (auto simp: dedup_cell_def case_prod_beta)

lemma set_dedup_list: "set (dedup_list ns fs) \<subseteq> set ns \<union> set fs"
proof (induction ns arbitrary: fs)
  case Nil
  then show ?case by simp
next
  case (Cons n ns)
  show ?case using Cons.IH [of "dedup_cell n fs"] set_dedup_cell [of n fs] by auto
qed

lemma set_dedup:
  "length dc < 65536 \<Longrightarrow> \<exists>fs. dedup dc = Some fs \<and> set fs \<subseteq> set (concat dc)"
  using set_dedup_list [of "concat dc" "[]"] by (simp add: dedup_concat)

lemma check_peaks_map_filter:
  "check_peaks s kept todo = kept @ List.map_filter (\<lambda>c. snd (examine s c)) todo"
  by (induction todo arbitrary: kept) (simp_all split: option.splits)

lemma in_set_map_filter:
  "y \<in> set (List.map_filter g xs) \<longleftrightarrow> (\<exists>x\<in>set xs. g x = Some y)"
  by (induction xs) (auto split: option.splits)

lemma examine_Some:
  "snd (examine s c) = Some f \<Longrightarrow>
     n_id_1 (sss_detect s c) \<noteq> -1 \<and> f = after_decode s (sss_detect s c) \<and> n_rb_dl f \<noteq> -1"
  by (auto simp: examine_def Let_def split: if_splits)

lemma sweep_cells_origin:
  "f \<in> set (sweep_cells FS s) \<Longrightarrow> \<exists>p\<in>set (peaks FS s). snd (examine s p) = Some f"
  by (auto simp: sweep_cells_def check_peaks_map_filter in_set_map_filter)

lemma cell_search_origin:
  assumes "length sweeps < 65536"
  shows "\<exists>fs. cell_search FS sweeps = Some fs \<and>
           (\<forall>f\<in>set fs. \<exists>s\<in>set sweeps. \<exists>p\<in>set (peaks FS s). snd (examine s p) = Some f)"
proof -
  obtain fs where fs: "dedup (map (sweep_cells FS) sweeps) = Some fs"
    "set fs \<subseteq> set (concat (map (sweep_cells FS) sweeps))"
    using set_dedup [of "map (sweep_cells FS) sweeps"] assms by auto
  have "\<exists>s\<in>set sweeps. \<exists>p\<in>set (peaks FS s). snd (examine s p) = Some f" if fin: "f \<in> set fs" for f
  proof -
    obtain s where "s \<in> set sweeps" "f \<in> set (sweep_cells FS s)"
      using fs(2) fin by auto
    then show ?thesis using sweep_cells_origin by blast
  qed
  then show ?thesis using fs(1) by (simp add: cell_search_def)
qed

text \<open>
  C3. Let \<^verbatim>\<open>sss_detect\<close> return the sentinel \<open>n_id_1 = -1\<close> for the peak \<open>c\<close>. Then the loop
  body calls no stage but \<^verbatim>\<open>sss_detect\<close> for it and erases it, and the loop goes on with the
  list without \<open>c\<close>. Every cell of the final report of \<^verbatim>\<open>main\<close> comes from a peak for which
  \<^verbatim>\<open>sss_detect\<close> did not return the sentinel, whatever the powers are.
\<close>

theorem sss_failure_rejects:
  assumes "n_id_1 (sss_detect s c) = -1" and "length sweeps < 65536"
  shows "examine s c = ([SSS_DETECT], None) \<and>
         check_peaks s kept (c # todo) = check_peaks s kept todo \<and>
         (\<exists>fs. cell_search FS sweeps = Some fs \<and>
            (\<forall>f\<in>set fs. \<exists>s'\<in>set sweeps. \<exists>p\<in>set (peaks FS s').
               n_id_1 (sss_detect s' p) \<noteq> -1 \<and> snd (examine s' p) = Some f))"
proof -
  have e: "examine s c = ([SSS_DETECT], None)"
    using assms(1) by (simp add: examine_def)
  obtain fs where fs: "cell_search FS sweeps = Some fs"
    "\<forall>f\<in>set fs. \<exists>s'\<in>set sweeps. \<exists>p\<in>set (peaks FS s'). snd (examine s' p) = Some f"
    using cell_search_origin [OF assms(2)] by blast
  have "\<forall>f\<in>set fs. \<exists>s'\<in>set sweeps. \<exists>p\<in>set (peaks FS s').
          n_id_1 (sss_detect s' p) \<noteq> -1 \<and> snd (examine s' p) = Some f"
    using fs(2) examine_Some by blast
  then show ?thesis using e fs(1) by simp
qed

text \<open>The example sweep.\<close>

lemma demo_peaks: "peaks FS demo_sweep = [cell_Z, cell_W, cell_Y, cell_X]"
  by (simp add: peaks_def demo_sweep_def)

lemma demo_examine:
  "examine demo_sweep cell_Z = ([SSS_DETECT], None)"
  "snd (examine demo_sweep cell_Y) = None"
  "snd (examine demo_sweep cell_W) = Some (cell_W\<lparr>freq_superfine := 5010\<rparr>)"
  "snd (examine demo_sweep cell_X) = Some (cell_X\<lparr>freq_superfine := - 39990\<rparr>)"
  by (simp_all add: examine_def after_decode_def demo_sweep_def ex_cells)

lemma demo_sweep_cells:
  "sweep_cells FS demo_sweep = [cell_W\<lparr>freq_superfine := 5010\<rparr>, cell_X\<lparr>freq_superfine := - 39990\<rparr>]"
  by (simp add: sweep_cells_def demo_peaks demo_examine)

lemma demo_cell_search:
  "cell_search FS [demo_sweep] = Some [cell_W\<lparr>freq_superfine := 5010\<rparr>, cell_X\<lparr>freq_superfine := - 39990\<rparr>]"
  by (simp add: cell_search_def demo_sweep_cells dedup_concat dedup_cell_def cells_match_def ex_cells fl_exact)

text \<open>
  In the example sweep the strong peak \<open>cell_Z\<close> fails \<^verbatim>\<open>sss_detect\<close>; the report holds the
  cells that come from \<open>cell_W\<close> and the weaker \<open>cell_X\<close>.
\<close>

theorem sss_failure_rejects_witness:
  "n_id_1 (sss_detect demo_sweep cell_Z) = -1 \<and> length [demo_sweep] < 65536 \<and>
   examine demo_sweep cell_Z = ([SSS_DETECT], None) \<and>
   check_peaks demo_sweep [] (cell_Z # [cell_W, cell_Y, cell_X]) =
     check_peaks demo_sweep [] [cell_W, cell_Y, cell_X] \<and>
   cell_search 30720000 [demo_sweep] =
     Some [cell_W\<lparr>freq_superfine := 5010\<rparr>, cell_X\<lparr>freq_superfine := - 39990\<rparr>] \<and>
   pss_pow cell_X < pss_pow cell_Z"
proof -
  have a: "n_id_1 (sss_detect demo_sweep cell_Z) = -1"
    by (simp add: demo_sweep_def ex_cells)
  have b: "length [demo_sweep] < 65536" by simp
  show ?thesis
    using sss_failure_rejects [OF a b, of "[]" "[cell_W, cell_Y, cell_X]" 30720000] a b
    by (auto simp: demo_cell_search ex_cells)
qed

text \<open>
  C4. Every cell of \<^verbatim>\<open>detected_cells[fci]\<close> after the loop over the peaks, and every cell of
  the final report, has \<open>n_rb_dl \<noteq> -1\<close>; a peak that passes \<^verbatim>\<open>sss_detect\<close> and for which
  \<^verbatim>\<open>decode_mib\<close> leaves \<open>n_rb_dl\<close> at -1 is erased.
\<close>

theorem confirmed_have_bandwidth:
  assumes "length sweeps < 65536"
  shows "(\<forall>f\<in>set (sweep_cells FS s). n_rb_dl f \<noteq> -1) \<and>
         (\<exists>fs. cell_search FS sweeps = Some fs \<and> (\<forall>f\<in>set fs. n_rb_dl f \<noteq> -1)) \<and>
         (n_id_1 (sss_detect s c) \<noteq> -1 \<and> n_rb_dl (after_decode s (sss_detect s c)) = -1 \<longrightarrow>
            snd (examine s c) = None \<and>
            check_peaks s kept (c # todo) = check_peaks s kept todo)"
proof -
  have 1: "\<forall>f\<in>set (sweep_cells FS s). n_rb_dl f \<noteq> -1"
    using sweep_cells_origin examine_Some by blast
  obtain fs where fs: "cell_search FS sweeps = Some fs"
    "\<forall>f\<in>set fs. \<exists>s'\<in>set sweeps. \<exists>p\<in>set (peaks FS s'). snd (examine s' p) = Some f"
    using cell_search_origin [OF assms] by blast
  have 2: "\<forall>f\<in>set fs. n_rb_dl f \<noteq> -1"
    using fs(2) examine_Some by blast
  have 3: "snd (examine s c) = None \<and> check_peaks s kept (c # todo) = check_peaks s kept todo"
    if "n_id_1 (sss_detect s c) \<noteq> -1 \<and> n_rb_dl (after_decode s (sss_detect s c)) = -1"
    using that by (simp add: examine_def)
  show ?thesis using 1 2 3 fs(1) by blast
qed

text \<open>In the example sweep \<open>cell_Y\<close> passes \<^verbatim>\<open>sss_detect\<close> and fails \<^verbatim>\<open>decode_mib\<close>.\<close>

theorem confirmed_have_bandwidth_witness:
  "length [demo_sweep] < 65536 \<and>
   n_id_1 (sss_detect demo_sweep cell_Y) \<noteq> -1 \<and>
   n_rb_dl (after_decode demo_sweep (sss_detect demo_sweep cell_Y)) = -1 \<and>
   snd (examine demo_sweep cell_Y) = None \<and>
   check_peaks demo_sweep [cell_W] (cell_Y # [cell_X]) = check_peaks demo_sweep [cell_W] [cell_X] \<and>
   sweep_cells 30720000 demo_sweep =
     [cell_W\<lparr>freq_superfine := 5010\<rparr>, cell_X\<lparr>freq_superfine := - 39990\<rparr>] \<and>
   cell_search 30720000 [demo_sweep] =
     Some [cell_W\<lparr>freq_superfine := 5010\<rparr>, cell_X\<lparr>freq_superfine := - 39990\<rparr>] \<and>
   n_rb_dl (cell_W\<lparr>freq_superfine := 5010\<rparr>) = 6 \<and> n_rb_dl (cell_X\<lparr>freq_superfine := - 39990\<rparr>) = 6"
proof -
  have a: "length [demo_sweep] < 65536" by simp
  have b: "n_id_1 (sss_detect demo_sweep cell_Y) \<noteq> -1"
    "n_rb_dl (after_decode demo_sweep (sss_detect demo_sweep cell_Y)) = -1"
    by (simp_all add: after_decode_def demo_sweep_def ex_cells)
  have c: "n_rb_dl (cell_W\<lparr>freq_superfine := 5010\<rparr>) = 6" "n_rb_dl (cell_X\<lparr>freq_superfine := - 39990\<rparr>) = 6"
    by (simp_all add: ex_cells)
  show ?thesis
    using confirmed_have_bandwidth [OF a, of 30720000 demo_sweep cell_Y "[cell_W]" "[cell_X]"] a b c
    by (simp add: demo_cell_search demo_sweep_cells)
qed

section \<open>Properties of the search grid\<close>

lemma uint_n_extra:
  assumes "0 \<le> k" and "k < 65536"
  shows "uint (word_of_int k :: 16 word) = k"
  using assms by (simp add: uint_word_of_int take_bit_int_eq_self)

lemma matlab_range_symmetric:
  "0 \<le> n \<Longrightarrow> matlab_range (- n * 5000) 5000 (n * 5000) =
     map (\<lambda>t. (int t - n) * 5000) [0 ..< 2 * nat n + 1]"
proof -
  assume n: "0 \<le> n"
  have "(n * 5000 - - n * 5000) div 5000 = 2 * n" by simp
  moreover have "nat (2 * n + 1) = 2 * nat n + 1" using n by (simp add: nat_add_distrib nat_mult_distrib)
  ultimately show ?thesis
    by (simp add: matlab_range_def algebra_simps)
qed

text \<open>The four roundings of line 325.\<close>

lemma fl_between:
  assumes "0 \<le> lo" and "lo \<le> y" and "y \<le> hi"
  shows "lo * (1 - 1 / 2 ^ 53) \<le> fl y" and "fl y \<le> hi * (1 + 1 / 2 ^ 53)"
proof -
  have y0: "0 \<le> y" using assms(1,2) by simp
  have "lo * (1 - 1 / 2 ^ 53) \<le> y * (1 - 1 / 2 ^ 53)"
    using assms(2) by (intro mult_right_mono) simp_all
  then show "lo * (1 - 1 / 2 ^ 53) \<le> fl y" using fl_rel(1) [OF y0] by linarith
  have "y * (1 + 1 / 2 ^ 53) \<le> hi * (1 + 1 / 2 ^ 53)"
    using assms(3) by (intro mult_right_mono) simp_all
  then show "fl y \<le> hi * (1 + 1 / 2 ^ 53)" using fl_rel(2) [OF y0] by linarith
qed

lemma n_extra_arg_nonneg:
  assumes "0 \<le> fstart" and "0 \<le> ppm_v"
  shows "0 \<le> n_extra_arg fstart ppm_v"
  using assms by (simp add: n_extra_arg_def fl_nonneg)

lemma n_extra_arg_bounds:
  assumes "0 \<le> fstart" and "0 \<le> ppm_v"
  shows "(fstart * ppm_v / 1000000 + 2500) / 5000 * (1 - 1 / 2 ^ 53) ^ 4
           \<le> n_extra_arg fstart ppm_v"
    and "n_extra_arg fstart ppm_v
           \<le> (fstart * ppm_v / 1000000 + 2500) / 5000 * (1 + 1 / 2 ^ 53) ^ 4"
proof -
  define d :: real where "d = 1 - 1 / 2 ^ 53"
  define u :: real where "u = 1 + 1 / 2 ^ 53"
  define a where "a = fstart * ppm_v"
  define x where "x = a / 1000000 + 2500"
  have d: "0 \<le> d" "d \<le> 1" and u: "1 \<le> u" by (simp_all add: d_def u_def)
  have a0: "0 \<le> a" using assms by (simp add: a_def)
  have dd: "0 \<le> d * d" "d * d \<le> 1" using d by (simp_all add: mult_le_one)
  have uu: "1 \<le> u * u" using mult_mono [of 1 u 1 u] u by simp
  have p1: "a * d \<le> fl a" "fl a \<le> a * u"
    using fl_between [of a a a] a0 by (simp_all add: d_def u_def)
  have p2: "a * d / 1000000 * d \<le> fl (fl a / 1000000)" "fl (fl a / 1000000) \<le> a * u / 1000000 * u"
    using fl_between [of "a * d / 1000000" "fl a / 1000000" "a * u / 1000000"] p1 a0 d
    by (simp_all add: d_def u_def)
  let ?s = "fl (fl a / 1000000) + 2500"
  have s: "a * d / 1000000 * d + 2500 \<le> ?s" "?s \<le> a * u / 1000000 * u + 2500"
    using p2 by simp_all
  have lo0: "0 \<le> a * d / 1000000 * d + 2500" using a0 d by simp
  have p3: "(a * d / 1000000 * d + 2500) * d \<le> fl ?s" "fl ?s \<le> (a * u / 1000000 * u + 2500) * u"
    using fl_between [OF lo0 s] by (simp_all add: d_def u_def)
  have lo1: "0 \<le> (a * d / 1000000 * d + 2500) * d / 5000" using lo0 d by simp
  have q: "(a * d / 1000000 * d + 2500) * d / 5000 * d \<le> fl (fl ?s / 5000)"
    "fl (fl ?s / 5000) \<le> (a * u / 1000000 * u + 2500) * u / 5000 * u"
    using fl_between [OF lo1, of "fl ?s / 5000" "(a * u / 1000000 * u + 2500) * u / 5000"] p3
    by (simp_all add: d_def u_def)
  have "x * (d * d) \<le> a * d / 1000000 * d + 2500"
  proof -
    have "2500 * (d * d) \<le> 2500" using dd(2) by simp
    then show ?thesis by (simp add: x_def algebra_simps)
  qed
  then have "x * (d * d) * (d * d / 5000) \<le> (a * d / 1000000 * d + 2500) * (d * d / 5000)"
    using dd(1) by (intro mult_right_mono) simp_all
  then have lo: "x / 5000 * d ^ 4 \<le> fl (fl ?s / 5000)"
    using q(1) by (simp add: power4_eq_xxxx algebra_simps)
  have "a * u / 1000000 * u + 2500 \<le> x * (u * u)"
  proof -
    have "2500 \<le> 2500 * (u * u)" using uu by simp
    then show ?thesis by (simp add: x_def algebra_simps)
  qed
  then have "(a * u / 1000000 * u + 2500) * (u * u / 5000) \<le> x * (u * u) * (u * u / 5000)"
    using u by (intro mult_right_mono) simp_all
  then have hi: "fl (fl ?s / 5000) \<le> x / 5000 * u ^ 4"
    using q(2) by (simp add: power4_eq_xxxx algebra_simps)
  show "(fstart * ppm_v / 1000000 + 2500) / 5000 * (1 - 1 / 2 ^ 53) ^ 4 \<le> n_extra_arg fstart ppm_v"
    using lo unfolding n_extra_arg_def x_def a_def d_def .
  show "n_extra_arg fstart ppm_v \<le> (fstart * ppm_v / 1000000 + 2500) / 5000 * (1 + 1 / 2 ^ 53) ^ 4"
    using hi unfolding n_extra_arg_def x_def a_def u_def .
qed

lemma f_search_set_eq:
  assumes "0 \<le> \<lfloor>n_extra_arg fstart ppm_v\<rfloor>"
    and "\<lfloor>n_extra_arg fstart ppm_v\<rfloor> < 65536"
    and "n = nat \<lfloor>n_extra_arg fstart ppm_v\<rfloor>"
  shows "f_search_set fstart ppm_v = Some (map (\<lambda>k. (real k - real n) * 5000) [0 ..< 2 * n + 1])"
proof -
  let ?q = "\<lfloor>n_extra_arg fstart ppm_v\<rfloor>"
  have fl: "floor_i (n_extra_arg fstart ppm_v) = Some ?q"
    using assms(1,2) by (simp add: floor_i_def)
  have u: "uint (word_of_int ?q :: 16 word) = ?q"
    using assms(1,2) by (rule uint_n_extra)
  have "matlab_range (- ?q * 5000) 5000 (?q * 5000) = map (\<lambda>t. (int t - ?q) * 5000) [0 ..< 2 * n + 1]"
    using matlab_range_symmetric [OF assms(1)] assms(3) by simp
  moreover have "real_of_int ((int t - ?q) * 5000) = (real t - real n) * 5000" for t
    using assms(1,3) by simp
  ultimately show ?thesis
    by (simp add: f_search_set_def n_extra_def fl u o_def)
qed

text \<open>
  C5, as amended. For \<open>freq_start \<ge> 1 MHz\<close> and \<open>ppm \<ge> 0\<close>, let \<open>q\<close> be the quotient
  \<open>(freq_start*ppm/1e6 + 2500) / 5000\<close> as line 325 computes it in doubles, and let
  \<open>n = floor q\<close> be representable in the 16 bits of \<^verbatim>\<open>n_extra\<close>. Then the offset sequence is
  exactly \<open>-n*5000, ..., -5000, 0, 5000, ..., n*5000\<close>: symmetric around zero and spaced
  5000 Hz apart. Its outer bound \<open>n*5000\<close> is rounded down: \<open>n*5000 \<le> 5000*q < n*5000 + 5000\<close>,
  and \<open>q\<close> is the exact quotient up to four roundings, so that
  \<open>n*5000 \<le> (freq_start*ppm/1e6 + 2500) * (1 + 2^-53)^4\<close> and
  \<open>(freq_start*ppm/1e6 + 2500) * (1 - 2^-53)^4 < n*5000 + 5000\<close>.
\<close>

theorem f_search_set_progression:
  assumes "1000000 \<le> fstart" and "0 \<le> ppm_v"
    and "q = n_extra_arg fstart ppm_v"
    and "\<lfloor>q\<rfloor> < 65536"
    and "n = nat \<lfloor>q\<rfloor>"
    and "xs = map (\<lambda>k. (real k - real n) * 5000) [0 ..< 2 * n + 1]"
  shows "f_search_set fstart ppm_v = Some xs \<and>
         map uminus (rev xs) = xs \<and>
         (\<forall>k<2 * n. xs ! (k + 1) - xs ! k = 5000) \<and>
         hd xs = - (real n * 5000) \<and> last xs = real n * 5000 \<and>
         real n * 5000 \<le> q * 5000 \<and> q * 5000 < real n * 5000 + 5000 \<and>
         real n * 5000 \<le> (fstart * ppm_v / 1000000 + 2500) * (1 + 1 / 2 ^ 53) ^ 4 \<and>
         (fstart * ppm_v / 1000000 + 2500) * (1 - 1 / 2 ^ 53) ^ 4 < real n * 5000 + 5000"
proof -
  let ?x = "fstart * ppm_v / 1000000 + 2500"
  have f0: "0 \<le> fstart" using assms(1) by simp
  have "0 \<le> q" unfolding assms(3) using f0 assms(2) by (rule n_extra_arg_nonneg)
  then have q0: "0 \<le> \<lfloor>q\<rfloor>" by simp
  have 1: "f_search_set fstart ppm_v = Some xs"
    using f_search_set_eq [of fstart ppm_v n] q0 assms(3-6) by simp
  have len: "length xs = 2 * n + 1" using assms(6) by simp
  have nth: "xs ! k = (real k - real n) * 5000" if "k < 2 * n + 1" for k
    using that assms(6) by (simp del: upt_Suc)
  have 2: "map uminus (rev xs) = xs"
  proof (rule nth_equalityI)
    show "length (map uminus (rev xs)) = length xs" by simp
  next
    fix k assume "k < length (map uminus (rev xs))"
    then have k: "k < 2 * n + 1" using len by simp
    then have "rev xs ! k = xs ! (2 * n - k)"
      using len by (simp add: rev_nth)
    also have "\<dots> = (real (2 * n - k) - real n) * 5000"
      using k by (intro nth) simp
    finally have "rev xs ! k = (real n - real k) * 5000"
      using k by (simp add: of_nat_diff algebra_simps)
    then show "map uminus (rev xs) ! k = xs ! k"
      using k len nth [OF k] by (simp add: algebra_simps)
  qed
  have 3: "\<forall>k<2 * n. xs ! (k + 1) - xs ! k = 5000"
  proof (intro allI impI)
    fix k assume "k < 2 * n"
    then have "xs ! (k + 1) = (real (k + 1) - real n) * 5000" "xs ! k = (real k - real n) * 5000"
      by (intro nth; simp)+
    then show "xs ! (k + 1) - xs ! k = 5000" by (simp add: algebra_simps)
  qed
  have 4: "hd xs = - (real n * 5000)"
    using nth [of 0] len by (cases xs) simp_all
  have 5: "last xs = real n * 5000"
  proof -
    have "last xs = xs ! (2 * n)"
      using len by (metis add_diff_cancel_right' last_conv_nth length_0_conv add_is_0 zero_neq_one)
    then show ?thesis using nth [of "2 * n"] by simp
  qed
  have n: "real n = real_of_int \<lfloor>q\<rfloor>" using q0 assms(5) by simp
  have nq: "real n \<le> q" "q < real n + 1" unfolding n by linarith+
  then have 6: "real n * 5000 \<le> q * 5000" "q * 5000 < real n * 5000 + 5000" by simp_all
  have b: "?x / 5000 * (1 - 1 / 2 ^ 53) ^ 4 \<le> q" "q \<le> ?x / 5000 * (1 + 1 / 2 ^ 53) ^ 4"
    unfolding assms(3) using n_extra_arg_bounds [OF f0 assms(2)] by simp_all
  have 7: "real n * 5000 \<le> ?x * (1 + 1 / 2 ^ 53) ^ 4"
  proof -
    have "real n \<le> ?x / 5000 * (1 + 1 / 2 ^ 53) ^ 4" using nq(1) b(2) by (rule order_trans)
    then have "real n * 5000 \<le> ?x / 5000 * (1 + 1 / 2 ^ 53) ^ 4 * 5000"
      by (rule mult_right_mono) simp
    then show ?thesis by simp
  qed
  have 8: "?x * (1 - 1 / 2 ^ 53) ^ 4 < real n * 5000 + 5000"
  proof -
    have "?x / 5000 * (1 - 1 / 2 ^ 53) ^ 4 < real n + 1" using b(1) nq(2) by (rule le_less_trans)
    then have "?x / 5000 * (1 - 1 / 2 ^ 53) ^ 4 * 5000 < (real n + 1) * 5000"
      by (rule mult_strict_right_mono) simp
    then show ?thesis by (simp add: algebra_simps)
  qed
  show ?thesis using 1 2 3 4 5 6 7 8 by blast
qed

text \<open>The default \<open>ppm = 100\<close> at 739 MHz: \<open>n = 15\<close>.\<close>

lemma n_extra_arg_739: "\<lfloor>n_extra_arg 739000000 100\<rfloor> = 15"
proof -
  have "n_extra_arg 739000000 100 = fl (382 / 25)"
    by (simp add: n_extra_arg_def fl_exact)
  moreover have "382 / 25 * (1 - 1 / 2 ^ 53) \<le> fl (382 / 25)" "fl (382 / 25) \<le> 382 / 25 * (1 + 1 / 2 ^ 53)"
    using fl_rel [of "382 / 25"] by simp_all
  ultimately have "15 \<le> n_extra_arg 739000000 100" "n_extra_arg 739000000 100 < 16"
    by simp_all
  then show ?thesis by linarith
qed

theorem f_search_set_progression_witness:
  "(1000000::real) \<le> 739000000 \<and> (0::real) \<le> 100 \<and> \<lfloor>n_extra_arg 739000000 100\<rfloor> = 15 \<and>
   f_search_set 739000000 100 = Some (map (\<lambda>k. (real k - real 15) * 5000) [0 ..< 2 * 15 + 1]) \<and>
   real 15 * 5000 \<le> n_extra_arg 739000000 100 * 5000 \<and>
   n_extra_arg 739000000 100 * 5000 < real 15 * 5000 + 5000 \<and>
   real 15 * 5000 \<le> ((739000000::real) * 100 / 1000000 + 2500) * (1 + 1 / 2 ^ 53) ^ 4 \<and>
   ((739000000::real) * 100 / 1000000 + 2500) * (1 - 1 / 2 ^ 53) ^ 4 < real 15 * 5000 + 5000"
proof -
  have a: "(1000000::real) \<le> 739000000" "(0::real) \<le> 100" by simp_all
  have b: "\<lfloor>n_extra_arg 739000000 100\<rfloor> < 65536" "(15::nat) = nat \<lfloor>n_extra_arg 739000000 100\<rfloor>"
    by (simp_all add: n_extra_arg_739)
  show ?thesis
    using f_search_set_progression [OF a refl b refl] a n_extra_arg_739 by blast
qed

text \<open>
  C5 as stated fails in its bound: at 739 MHz and 100 ppm the sequence ends at 75000 Hz,
  which is less than \<open>739e6*100/1e6 + 2500 = 76400\<close>.
\<close>

theorem f_search_set_bound_counterexample:
  "f_search_set 739000000 100 = Some (map (\<lambda>k. (real k - 15) * 5000) [0 ..< 31]) \<and>
   last (map (\<lambda>k. (real k - 15) * 5000) [0 ..< 31]) = 75000 \<and>
   \<not> (739000000 * 100 / 1000000 + 2500 \<le> (75000::real))"
proof -
  have "f_search_set 739000000 100 = Some (map (\<lambda>k. (real k - real 15) * 5000) [0 ..< 2 * 15 + 1])"
    by (rule f_search_set_eq) (simp_all add: n_extra_arg_739)
  moreover have "last (map (\<lambda>k. (real k - 15) * 5000) [0 ..< 31]) = 75000"
    by (simp add: last_map)
  ultimately show ?thesis by simp
qed

text \<open>
  The roundings count: at 1562.5 MHz and \<^verbatim>\<open>ppm\<close> 4.8 (the double nearest to it) the product
  is rounded up to 7500000000 and \<^verbatim>\<open>n_extra\<close> is 2, where the exact quotient has the floor 1.
\<close>

lemma fl_product_4_8: "fl (1562500000 * double_4_8) = 7500000000"
proof -
  have v: "1562500000 * double_4_8 = (8444249301319679687500000 / 1125899906842624 :: real)"
    by (simp add: double_4_8_def)
  have "fl (8444249301319679687500000 / 1125899906842624) =
        sgn (8444249301319679687500000 / 1125899906842624 :: real) *
          (of_int (rne (\<bar>8444249301319679687500000 / 1125899906842624\<bar> / 2 powi (32 - 52)))
            * 2 powi (32 - 52))"
    by (rule fl_eval) simp_all
  also have "\<dots> = 7500000000"
    by (simp add: rne_def Let_def power_int_minus_divide)
  finally show ?thesis by (simp only: v)
qed

lemma n_extra_rounds_product:
  "n_extra 1562500000 double_4_8 = Some 2 \<and>
   \<lfloor>(1562500000 * double_4_8 / 1000000 + 2500) / 5000\<rfloor> = 1"
proof -
  have "n_extra_arg 1562500000 double_4_8 = 2"
    by (simp add: n_extra_arg_def fl_product_4_8 fl_exact)
  then have "n_extra 1562500000 double_4_8 = Some 2"
    by (simp add: n_extra_def floor_i_def)
  moreover have "\<lfloor>(1562500000 * double_4_8 / 1000000 + 2500) / 5000\<rfloor> = 1"
    by (simp add: double_4_8_def)
  ultimately show ?thesis by simp
qed

section \<open>Properties of parse_commandline\<close>

lemma parse_options_only_fatal: "parse_options p opts = Inl e \<Longrightarrow> exit_status e \<noteq> 0"
  by (induction p opts rule: parse_options.induct) auto

lemma raster_start:
  "(if x / 100000 \<noteq> itpp_round (x / 100000) then itpp_round (x / 100000) * 100000 else x)
     = itpp_round (x / 100000) * 100000"
  by auto

lemma itpp_round_of_int: "itpp_round (of_int k) = of_int k"
  by (simp add: itpp_round_def)

lemma itpp_round_idem: "itpp_round (itpp_round y) = itpp_round y"
proof -
  have "itpp_round y = of_int \<lfloor>y\<rfloor> \<or> itpp_round y = of_int (\<lfloor>y\<rfloor> + 1)"
    unfolding itpp_round_def Let_def by presburger
  then obtain k where "itpp_round y = of_int k" by blast
  then show ?thesis by (simp add: itpp_round_of_int)
qed

lemma check_parameters_cases:
  "check_parameters extra p =
     (if extra \<or> freq_start p < 1000000 then Inl (Exit (-1))
      else if freq_end p \<noteq> -1 \<and> freq_end p < itpp_round (freq_start p / 100000) * 100000
        then Inl (Exit (-1))
      else if ppm p < 0 \<or> (save_cap p \<and> use_recorded_data p) then Inl (Exit (-1))
      else Inr (p\<lparr>freq_start := itpp_round (freq_start p / 100000) * 100000,
                  freq_end := (if freq_end p = -1 then itpp_round (freq_start p / 100000) * 100000
                               else itpp_round (freq_end p / 100000) * 100000)\<rparr>))"
proof -
  show ?thesis
    unfolding check_parameters_def Let_def raster_start
    by (auto simp: itpp_round_idem)
qed

text \<open>
  C6, as amended. Let \<open>p\<close> hold the values after the option loop. \<^verbatim>\<open>parse_commandline\<close>
  ends in \<^verbatim>\<open>exit\<close> with a nonzero status whenever \<open>freq_start < 1 MHz\<close>, whenever
  \<open>ppm < 0\<close>, and whenever \<open>freq_end \<ge> 0\<close> is less than \<open>freq_start\<close> rounded to the nearest
  multiple of 100 kHz; so for every \<open>freq_start > freq_end \<ge> 0\<close> with \<open>freq_start\<close> on the
  100 kHz raster.
\<close>

theorem parse_commandline_fatal:
  assumes "parse_options default_params opts = Inr p"
  shows "(freq_start p < 1000000 \<longrightarrow> fatal (parse_commandline opts extra)) \<and>
         (ppm p < 0 \<longrightarrow> fatal (parse_commandline opts extra)) \<and>
         (0 \<le> freq_end p \<and> freq_end p < itpp_round (freq_start p / 100000) * 100000 \<longrightarrow>
            fatal (parse_commandline opts extra)) \<and>
         (0 \<le> freq_end p \<and> freq_end p < freq_start p \<and>
          freq_start p / 100000 = itpp_round (freq_start p / 100000) \<longrightarrow>
            fatal (parse_commandline opts extra))"
proof -
  have pc: "parse_commandline opts extra = check_parameters extra p"
    using assms by (simp add: parse_commandline_def)
  have f: "fatal (Inl (Exit (-1)))" by (simp add: fatal_def)
  have "freq_start p = itpp_round (freq_start p / 100000) * 100000"
    if "freq_start p / 100000 = itpp_round (freq_start p / 100000)"
    using that by (metis nonzero_divide_eq_eq zero_neq_numeral)
  then show ?thesis
    unfolding pc check_parameters_cases using f by auto
qed

theorem parse_commandline_fatal_witness:
  "parse_options default_params [OPT_s (Some 739000000), OPT_e (Some 738000000), OPT_p (Some (- 5))] =
     Inr (default_params\<lparr>freq_start := 739000000, freq_end := 738000000, ppm := - 5\<rparr>) \<and>
   fatal (parse_commandline [OPT_s (Some 739000000), OPT_e (Some 738000000), OPT_p (Some (- 5))] False) \<and>
   parse_options default_params [OPT_e (Some 738000000)] = Inr (default_params\<lparr>freq_end := 738000000\<rparr>) \<and>
   fatal (parse_commandline [OPT_e (Some 738000000)] False)"
proof -
  have a: "parse_options default_params [OPT_s (Some 739000000), OPT_e (Some 738000000), OPT_p (Some (- 5))] =
     Inr (default_params\<lparr>freq_start := 739000000, freq_end := 738000000, ppm := - 5\<rparr>)"
    by simp
  have b: "parse_options default_params [OPT_e (Some 738000000)] = Inr (default_params\<lparr>freq_end := 738000000\<rparr>)"
    by simp
  show ?thesis
    using parse_commandline_fatal [OF a, of False] parse_commandline_fatal [OF b, of False] a b
    by (simp add: default_params_def)
qed

text \<open>
  C6 as stated fails for \<^verbatim>\<open>-s 739040000 -e 739020000\<close>: the start is rounded to 739.0 MHz
  before the comparison, the end is not less than that, and the search goes on with both
  at 739.0 MHz.
\<close>

lemma round_7390: "itpp_round (36952 / 5) = 7390" "itpp_round (36951 / 5) = 7390"
  by (simp_all add: itpp_round_def Let_def)

theorem parse_commandline_unrounded_counterexample:
  "parse_commandline [OPT_s (Some 739040000), OPT_e (Some 739020000)] False =
     Inr (default_params\<lparr>freq_start := 739000000, freq_end := 739000000\<rparr>) \<and>
   (739040000::real) > 739020000 \<and> (739020000::real) \<ge> 0 \<and>
   \<not> fatal (parse_commandline [OPT_s (Some 739040000), OPT_e (Some 739020000)] False)"
  by (simp add: parse_commandline_def check_parameters_cases round_7390 default_params_def fatal_def)

section \<open>Properties of the correction factor\<close>

text \<open>
  C9. For a reported cell \<open>c\<close> with \<open>fc \<noteq> freq_superfine\<close>, the new correction factor is
  \<open>correction * (fc / (fc - freq_superfine))\<close>, and this is the value in the report; for
  \<open>fc = 1,000,000,000\<close>, \<open>freq_superfine = 100\<close> and \<open>correction = 1\<close> it is
  \<open>1e9 / (1e9 - 100)\<close>.
\<close>

theorem correction_new_formula:
  assumes "fc c \<noteq> freq_superfine c"
  shows "correction_new corr c = Some (corr * (fc c / (fc c - freq_superfine c))) \<and>
         (c \<in> set cells_final \<longrightarrow>
            Some (corr * (fc c / (fc c - freq_superfine c))) \<in> set (report_corrections corr cells_final)) \<and>
         (fc c = 1000000000 \<and> freq_superfine c = 100 \<and> corr = 1 \<longrightarrow>
            correction_new corr c = Some (1000000000 / (1000000000 - 100)))"
proof -
  have 1: "correction_new corr c = Some (corr * (fc c / (fc c - freq_superfine c)))"
    using assms by (simp add: correction_new_def)
  then have "Some (corr * (fc c / (fc c - freq_superfine c))) \<in> set (report_corrections corr cells_final)"
    if "c \<in> set cells_final"
    using that by (force simp: report_corrections_def)
  then show ?thesis using 1 by auto
qed

theorem correction_new_formula_witness:
  "fc (candidate 301 1000000000 100 5) \<noteq> freq_superfine (candidate 301 1000000000 100 5) \<and>
   correction_new 1 (candidate 301 1000000000 100 5) = Some (1000000000 / (1000000000 - 100)) \<and>
   report_corrections 1 [candidate 301 1000000000 100 5] = [Some (1000000000 / 999999900)]"
proof -
  have a: "fc (candidate 301 1000000000 100 5) \<noteq> freq_superfine (candidate 301 1000000000 100 5)"
    by (simp add: candidate_def)
  show ?thesis
    using correction_new_formula [OF a, of 1 "[]"] a
    by (simp add: candidate_def report_corrections_def)
qed

section \<open>Properties of the detection threshold\<close>

subsection \<open>The chi-squared quantile\<close>

lemma chi2cdf_tail: "chi2cdf k x = 1 - chi2_tail (k div 2) (x / 2)"
  by (simp add: chi2cdf_def chi2_tail_def)

lemma chi2_tail_Suc: "chi2_tail (Suc m) y = chi2_tail m y + exp (- y) * y ^ m / fact m"
  by (simp add: chi2_tail_def algebra_simps)

lemma chi2_tail_deriv:
  "(chi2_tail (Suc m) has_real_derivative - (exp (- y) * y ^ m / fact m)) (at y)"
proof (induction m)
  case 0
  have "chi2_tail (Suc 0) = (\<lambda>y. exp (- y))"
    by (simp add: chi2_tail_def fun_eq_iff)
  then show ?case
    by (auto intro!: derivative_eq_intros)
next
  case (Suc m)
  have eq: "chi2_tail (Suc (Suc m)) = (\<lambda>y. chi2_tail (Suc m) y + exp (- y) * y ^ Suc m / fact (Suc m))"
    by (rule ext) (rule chi2_tail_Suc)
  have d1: "((\<lambda>y. exp (- y)) has_real_derivative - exp (- y)) (at y)"
    by (auto intro!: derivative_eq_intros)
  have "((\<lambda>y. y ^ Suc m) has_real_derivative real (Suc m) * y ^ m) (at y)"
    using DERIV_pow [of "Suc m" y] by simp
  then have "((\<lambda>y. y ^ Suc m / fact (Suc m)) has_real_derivative
               real (Suc m) * y ^ m / fact (Suc m)) (at y)"
    by (rule DERIV_cdivide)
  moreover have "real (Suc m) * y ^ m / fact (Suc m) = y ^ m / fact m"
    by (simp add: fact_Suc del: of_nat_Suc)
  ultimately have d2: "((\<lambda>y. y ^ Suc m / fact (Suc m)) has_real_derivative y ^ m / fact m) (at y)"
    by simp
  have "((\<lambda>y. exp (- y) * (y ^ Suc m / fact (Suc m))) has_real_derivative
          - exp (- y) * (y ^ Suc m / fact (Suc m)) + y ^ m / fact m * exp (- y)) (at y)"
    by (rule DERIV_mult [OF d1 d2])
  then have "((\<lambda>y. exp (- y) * y ^ Suc m / fact (Suc m)) has_real_derivative
          (exp (- y) * y ^ m / fact m - exp (- y) * y ^ Suc m / fact (Suc m))) (at y)"
    by (simp add: algebra_simps)
  then have "((\<lambda>y. chi2_tail (Suc m) y + exp (- y) * y ^ Suc m / fact (Suc m)) has_real_derivative
          (- (exp (- y) * y ^ m / fact m) +
           (exp (- y) * y ^ m / fact m - exp (- y) * y ^ Suc m / fact (Suc m)))) (at y)"
    by (rule DERIV_add [OF Suc.IH])
  then show ?case unfolding eq by simp
qed

lemma chi2_tail_continuous: "continuous_on A (chi2_tail m)"
  unfolding chi2_tail_def [abs_def] by (intro continuous_intros) simp

lemma chi2_tail_decreasing:
  assumes "0 \<le> a" and "a < b"
  shows "chi2_tail (Suc m) b < chi2_tail (Suc m) a"
proof (rule DERIV_neg_imp_decreasing_open [OF assms(2)])
  fix x assume "a < x" "x < b"
  then have "0 < x" using assms(1) by simp
  then have "- (exp (- x) * x ^ m / fact m) < 0" by simp
  then show "\<exists>d. (chi2_tail (Suc m) has_real_derivative d) (at x) \<and> d < 0"
    using chi2_tail_deriv by blast
next
  show "continuous_on {a..b} (chi2_tail (Suc m))" by (rule chi2_tail_continuous)
qed

lemma chi2_tail_0: "chi2_tail (Suc m) 0 = 1"
proof (induction m)
  case 0
  show ?case by (simp add: chi2_tail_def)
next
  case (Suc m)
  then show ?case by (simp add: chi2_tail_Suc [of "Suc m"])
qed

lemma exp_partial_sum_le:
  assumes "0 \<le> z"
  shows "(\<Sum>j<m. z ^ j / fact j) \<le> exp (z::real)"
proof -
  have "(\<Sum>j<m. inverse (fact j) * z ^ j) \<le> (\<Sum>j. inverse (fact j) * z ^ j)"
    using assms by (intro sum_le_suminf summable_exp) simp_all
  then show ?thesis by (simp add: exp_def divide_inverse mult.commute)
qed

lemma chi2_tail_le:
  assumes "0 \<le> y"
  shows "chi2_tail m y \<le> 2 ^ m * exp (- (y / 2))"
proof -
  have "y ^ j / fact j \<le> 2 ^ m * ((y / 2) ^ j / fact j)" if "j < m" for j
  proof -
    have p: "(2::real) ^ j \<le> 2 ^ m" using that by (simp add: power_increasing)
    have t: "0 \<le> (y / 2) ^ j / fact j" using assms by simp
    have "y ^ j / fact j = 2 ^ j * ((y / 2) ^ j / fact j)"
      by (simp add: power_divide)
    also have "\<dots> \<le> 2 ^ m * ((y / 2) ^ j / fact j)"
      using p t by (rule mult_right_mono)
    finally show ?thesis .
  qed
  then have "(\<Sum>j<m. y ^ j / fact j) \<le> (\<Sum>j<m. 2 ^ m * ((y / 2) ^ j / fact j))"
    by (intro sum_mono) simp
  also have "\<dots> = 2 ^ m * (\<Sum>j<m. (y / 2) ^ j / fact j)"
    by (simp add: sum_distrib_left)
  also have "\<dots> \<le> 2 ^ m * exp (y / 2)"
    using exp_partial_sum_le [of "y / 2" m] assms by simp
  finally have "exp (- y) * (\<Sum>j<m. y ^ j / fact j) \<le> exp (- y) * (2 ^ m * exp (y / 2))"
    by (simp add: mult_left_mono)
  also have "\<dots> = 2 ^ m * (exp (- y) * exp (y / 2))" by simp
  also have "exp (- y) * exp (y / 2) = exp (- (y / 2))"
    by (simp add: exp_add [symmetric])
  finally show ?thesis by (simp add: chi2_tail_def)
qed

lemma chi2_tail_exists:
  assumes "0 < q" and "q \<le> 1"
  shows "\<exists>y. 0 \<le> y \<and> chi2_tail (Suc m) y = q"
proof -
  define B where "B = 2 * ln (2 ^ Suc m / q)"
  have "1 \<le> 2 ^ Suc m / q"
    using assms by (simp add: le_divide_eq) (smt (verit) one_le_power)
  then have B0: "0 \<le> B" by (simp add: B_def)
  have "chi2_tail (Suc m) B \<le> 2 ^ Suc m * exp (- (B / 2))"
    using B0 by (rule chi2_tail_le)
  also have "exp (- (B / 2)) = q / 2 ^ Suc m"
  proof -
    have "B / 2 = ln (2 ^ Suc m / q)" by (simp add: B_def)
    moreover have "0 < 2 ^ Suc m / q" using assms(1) by simp
    ultimately have "exp (B / 2) = 2 ^ Suc m / q" by (simp only: exp_ln)
    then show ?thesis by (simp add: exp_minus)
  qed
  finally have le: "chi2_tail (Suc m) B \<le> q" by simp
  have "\<exists>y. 0 \<le> y \<and> y \<le> B \<and> chi2_tail (Suc m) y = q"
    using le assms(2) B0 by (intro IVT2') (simp_all add: chi2_tail_0 chi2_tail_continuous)
  then show ?thesis by blast
qed

lemma chi2cdf_strict_mono:
  assumes "k div 2 \<noteq> 0" and "0 \<le> a" and "a < b"
  shows "chi2cdf k a < chi2cdf k b"
proof -
  obtain m where m: "k div 2 = Suc m" using assms(1) by (cases "k div 2") simp_all
  have "chi2_tail (Suc m) (b / 2) < chi2_tail (Suc m) (a / 2)"
    using assms(2,3) by (intro chi2_tail_decreasing) simp_all
  then show ?thesis by (simp add: chi2cdf_tail m)
qed

lemma chi2cdf_inv_unique:
  assumes "k div 2 \<noteq> 0" and "0 \<le> p" and "p < 1"
  shows "\<exists>!x. 0 \<le> x \<and> chi2cdf k x = p"
proof -
  obtain m where m: "k div 2 = Suc m" using assms(1) by (cases "k div 2") simp_all
  obtain y where y: "0 \<le> y" "chi2_tail (Suc m) y = 1 - p"
    using chi2_tail_exists [of "1 - p" m] assms(2,3) by auto
  have ex: "0 \<le> 2 * y \<and> chi2cdf k (2 * y) = p"
    using y by (simp add: chi2cdf_tail m)
  have "x = x'" if "0 \<le> x \<and> chi2cdf k x = p" "0 \<le> x' \<and> chi2cdf k x' = p" for x x'
    using that chi2cdf_strict_mono [OF assms(1), of x x'] chi2cdf_strict_mono [OF assms(1), of x' x]
    by (cases x x' rule: linorder_cases) auto
  then show ?thesis using ex by blast
qed

lemma chi2cdf_inv_props:
  assumes "k div 2 \<noteq> 0" and "0 \<le> p" and "p < 1"
  shows "0 \<le> chi2cdf_inv p k" and "chi2cdf k (chi2cdf_inv p k) = p"
    and "0 \<le> x \<Longrightarrow> chi2cdf k x = p \<Longrightarrow> x = chi2cdf_inv p k"
proof -
  have u: "\<exists>!x. 0 \<le> x \<and> chi2cdf k x = p" using assms by (rule chi2cdf_inv_unique)
  have "0 \<le> chi2cdf_inv p k \<and> chi2cdf k (chi2cdf_inv p k) = p"
    unfolding chi2cdf_inv_def by (rule theI' [OF u])
  then show "0 \<le> chi2cdf_inv p k" and "chi2cdf k (chi2cdf_inv p k) = p" by simp_all
  show "x = chi2cdf_inv p k" if "0 \<le> x" "chi2cdf k x = p"
    unfolding chi2cdf_inv_def using that by (intro the1_equality [OF u, symmetric]) simp
qed

lemma chi2cdf_inv_gt:
  assumes "k div 2 \<noteq> 0" and "0 \<le> p" and "p < 1" and "0 \<le> a" and "chi2cdf k a < p"
  shows "a < chi2cdf_inv p k"
proof (rule ccontr)
  assume "\<not> a < chi2cdf_inv p k"
  then have "chi2cdf_inv p k \<le> a" by simp
  then have "chi2cdf k (chi2cdf_inv p k) \<le> chi2cdf k a"
    using chi2cdf_strict_mono [OF assms(1) chi2cdf_inv_props(1) [OF assms(1-3)], of a]
    by (cases "chi2cdf_inv p k = a") auto
  then show False using assms(5) chi2cdf_inv_props(2) [OF assms(1-3)] by simp
qed

lemma chi2cdf_inv_lt:
  assumes "k div 2 \<noteq> 0" and "0 \<le> p" and "p < 1" and "0 \<le> b" and "p < chi2cdf k b"
  shows "chi2cdf_inv p k < b"
proof (rule ccontr)
  assume "\<not> chi2cdf_inv p k < b"
  then have "b \<le> chi2cdf_inv p k" by simp
  then have "chi2cdf k b \<le> chi2cdf k (chi2cdf_inv p k)"
    using chi2cdf_strict_mono [OF assms(1,4), of "chi2cdf_inv p k"]
    by (cases "chi2cdf_inv p k = b") auto
  then show False using assms(5) chi2cdf_inv_props(2) [OF assms(1-3)] by simp
qed

subsection \<open>The threshold vector\<close>

lemma thresh1_prob: "1 - 10 powr (- real thresh1_n_nines) = 1 - 1 / 10 ^ 12"
  by (simp add: thresh1_n_nines_def powr_minus_divide)

lemma thresh1_dof: "2 * unat n * (2 * DS_COMB_ARM + 1) = 10 * unat n"
  by (simp add: DS_COMB_ARM_def)

lemma R_th1_eq: "R_th1 n = chi2cdf_inv (1 - 1 / 10 ^ 12) (10 * unat n)"
  by (simp only: R_th1_def thresh1_prob thresh1_dof)

lemma R_th1_props:
  assumes "n \<noteq> 0"
  shows "0 \<le> R_th1 n" and "chi2cdf (10 * unat n) (R_th1 n) = 1 - 1 / 10 ^ 12"
    and "0 \<le> x \<Longrightarrow> chi2cdf (10 * unat n) x = 1 - 1 / 10 ^ 12 \<Longrightarrow> x = R_th1 n"
proof -
  have "unat n \<noteq> 0" using assms by (simp add: unat_eq_0)
  then have k: "10 * unat n div 2 \<noteq> 0" by simp
  have p: "(0::real) \<le> 1 - 1 / 10 ^ 12" "(1::real) - 1 / 10 ^ 12 < 1" by simp_all
  show "0 \<le> R_th1 n" and "chi2cdf (10 * unat n) (R_th1 n) = 1 - 1 / 10 ^ 12"
    unfolding R_th1_eq using chi2cdf_inv_props(1,2) [OF k p] by simp_all
  show "x = R_th1 n" if "0 \<le> x" "chi2cdf (10 * unat n) x = 1 - 1 / 10 ^ 12"
    unfolding R_th1_eq using chi2cdf_inv_props(3) [OF k p that] .
qed

text \<open>Bounds of \<open>R_th1\<close> for one and for two hypotheses: \<open>R_th1 1 > 70\<close> and \<open>R_th1 2 < 140\<close>.\<close>

lemma sum5_35: "(\<Sum>j<5. (35::real) ^ j / fact j) = 1687689 / 24"
  by (simp add: eval_nat_numeral)

lemma sum10_70: "(\<Sum>j<10. (70::real) ^ j / fact j) < 130000000000"
  by (simp add: eval_nat_numeral)

lemma exp_35_le: "exp (35::real) \<le> 3 ^ 35"
proof -
  have "exp (35::real) = exp 1 ^ 35" using exp_of_nat_mult [of 35 "1::real"] by simp
  also have "\<dots> \<le> 3 ^ 35" by (intro power_mono exp_le) simp
  finally show ?thesis .
qed

lemma exp_70_ge: "(3 / 2) ^ 140 \<le> exp (70::real)"
proof -
  have "(3 / 2 :: real) \<le> exp (1 / 2)" using exp_ge_add_one_self [of "1 / 2 :: real"] by simp
  then have "(3 / 2 :: real) ^ 140 \<le> exp (1 / 2) ^ 140" by (intro power_mono) simp_all
  also have "\<dots> = exp (70::real)" using exp_of_nat_mult [of 140 "1 / 2 :: real"] by simp
  finally show ?thesis .
qed

lemma tail5_35: "1 / 10 ^ 12 < chi2_tail 5 35"
proof -
  have "(1 / 10 ^ 12 :: real) < (1687689 / 24) / 3 ^ 35" by simp
  also have "\<dots> \<le> (1687689 / 24) / exp 35"
    using exp_35_le by (intro divide_left_mono) simp_all
  also have "\<dots> = chi2_tail 5 35"
    by (simp add: chi2_tail_def sum5_35 exp_minus field_simps)
  finally show ?thesis .
qed

lemma tail10_70: "chi2_tail 10 70 < 1 / 10 ^ 12"
proof -
  have "chi2_tail 10 70 = (\<Sum>j<10. (70::real) ^ j / fact j) / exp 70"
    unfolding chi2_tail_def exp_minus by (simp only: divide_inverse mult.commute)
  also have "\<dots> < 130000000000 / exp 70"
    using sum10_70 by (intro divide_strict_right_mono) simp_all
  also have "\<dots> \<le> 130000000000 / (3 / 2) ^ 140"
    using exp_70_ge by (intro divide_left_mono) simp_all
  also have "\<dots> < 1 / 10 ^ 12" by (simp add: power_divide)
  finally show ?thesis .
qed

lemma R_th1_1_gt: "70 < R_th1 1"
proof -
  have "chi2cdf 10 70 < 1 - 1 / 10 ^ 12"
    using tail5_35 by (simp add: chi2cdf_tail)
  then have "70 < chi2cdf_inv (1 - 1 / 10 ^ 12) 10"
    by (intro chi2cdf_inv_gt) simp_all
  then show ?thesis by (simp add: R_th1_eq)
qed

lemma R_th1_2_lt: "R_th1 2 < 140"
proof -
  have "1 - 1 / 10 ^ 12 < chi2cdf 20 140"
    using tail10_70 by (simp add: chi2cdf_tail)
  then have "chi2cdf_inv (1 - 1 / 10 ^ 12) 20 < 140"
    by (intro chi2cdf_inv_lt) simp_all
  then show ?thesis by (simp add: R_th1_eq)
qed

lemma rx_cutoff_pos: "0 < FS_LTE \<Longrightarrow> 0 < rx_cutoff FS_LTE"
  by (simp add: rx_cutoff_def)

lemma Z_th1_nth:
  "i < length sp \<Longrightarrow>
     Z_th1 FS_LTE sp n ! i =
       R_th1 n * (sp ! i) / (rx_cutoff FS_LTE * 137 * 2 * real (unat n) * real (2 * DS_COMB_ARM + 1))"
  by (simp add: Z_th1_def)

text \<open>
  C7, as amended. For a fixed \<open>n_comb_xc > 0\<close> (and the 12 nines and the combining arm of
  the program), every entry of the threshold vector \<open>Z_th1\<close> is monotonically increasing
  in the corresponding entry of the noise-power estimate \<open>sp_incoherent\<close>. Nothing of the
  kind is stated for \<open>n_comb_xc\<close>.
\<close>

theorem Z_th1_mono_noise:
  assumes "0 < FS_LTE" and "n \<noteq> 0" and "list_all2 (\<le>) sp sp'"
  shows "list_all2 (\<le>) (Z_th1 FS_LTE sp n) (Z_th1 FS_LTE sp' n)"
proof -
  let ?g = "\<lambda>s. R_th1 n * s / rx_cutoff FS_LTE / 137 / 2 / real (unat n) / real (2 * DS_COMB_ARM + 1)"
  have R: "0 \<le> R_th1 n" using assms(2) by (rule R_th1_props(1))
  have rx: "0 \<le> rx_cutoff FS_LTE" using rx_cutoff_pos [OF assms(1)] by simp
  have mono: "?g a \<le> ?g b" if "a \<le> b" for a b
  proof -
    have "R_th1 n * a \<le> R_th1 n * b" using that R by (rule mult_left_mono)
    then have "R_th1 n * a / rx_cutoff FS_LTE \<le> R_th1 n * b / rx_cutoff FS_LTE"
      using rx by (rule divide_right_mono)
    then have "R_th1 n * a / rx_cutoff FS_LTE / 137 \<le> R_th1 n * b / rx_cutoff FS_LTE / 137"
      by (rule divide_right_mono) simp
    then have "R_th1 n * a / rx_cutoff FS_LTE / 137 / 2 \<le> R_th1 n * b / rx_cutoff FS_LTE / 137 / 2"
      by (rule divide_right_mono) simp
    then have "R_th1 n * a / rx_cutoff FS_LTE / 137 / 2 / real (unat n)
               \<le> R_th1 n * b / rx_cutoff FS_LTE / 137 / 2 / real (unat n)"
      by (rule divide_right_mono) (rule of_nat_0_le_iff)
    then show ?thesis
      by (rule divide_right_mono) (rule of_nat_0_le_iff)
  qed
  have "list_all2 (\<lambda>a b. ?g a \<le> ?g b) sp sp'"
    by (rule list_all2_mono [OF assms(3)]) (rule mono)
  then show ?thesis
    unfolding Z_th1_def by (simp only: list_all2_map1 list_all2_map2)
qed

theorem Z_th1_mono_noise_witness:
  "(0::real) < 30720000 \<and> (1::16 word) \<noteq> 0 \<and> list_all2 (\<le>) [1, 2 :: real] [1, 3] \<and>
   list_all2 (\<le>) (Z_th1 30720000 [1, 2] 1) (Z_th1 30720000 [1, 3] 1)"
proof -
  have a: "(0::real) < 30720000" "(1::16 word) \<noteq> 0" "list_all2 (\<le>) [1, 2 :: real] [1, 3]"
    by simp_all
  show ?thesis using Z_th1_mono_noise [OF a] a by simp
qed

text \<open>
  C7 as stated fails in the hypothesis count: with the noise estimate 1, the threshold for
  \<open>n_comb_xc = 2\<close> is below the threshold for \<open>n_comb_xc = 1\<close>, since the quantile grows
  more slowly than the divisor \<open>n_comb_xc\<close>.
\<close>

theorem Z_th1_hypotheses_counterexample:
  "unat (1 :: 16 word) < unat (2 :: 16 word) \<and>
   Z_th1 30720000 [1] 2 ! 0 < Z_th1 30720000 [1] 1 ! 0"
proof -
  have "Z_th1 30720000 [1] 2 ! 0 = R_th1 2 / 1712.5" "Z_th1 30720000 [1] 1 ! 0 = R_th1 1 / 856.25"
    by (simp_all add: Z_th1_def rx_cutoff_def DS_COMB_ARM_def)
  moreover have "R_th1 2 / 1712.5 < 140 / 1712.5" using R_th1_2_lt by simp
  moreover have "(70::real) / 856.25 < R_th1 1 / 856.25" using R_th1_1_gt by simp
  ultimately show ?thesis by simp
qed

text \<open>
  C8. For \<open>n_comb_xc > 0\<close>, \<open>R_th1\<close> is the inverse CDF of the chi-squared distribution with
  exactly \<open>2 * n_comb_xc * (2*DS_COMB_ARM+1)\<close> degrees of freedom at the probability
  \<open>1 - 10^(-12)\<close>: the one point where that CDF takes this value. Every entry of \<open>Z_th1\<close>
  is \<open>R_th1\<close> multiplied by the entry of the noise-power estimate and divided by the
  normalization of the receiver bandwidth (\<open>rx_cutoff\<close> with the fixed factors 137 and 2), by
  \<open>n_comb_xc\<close> and by the combining width \<open>2*DS_COMB_ARM+1\<close>.
\<close>

theorem Z_th1_formula:
  assumes "n \<noteq> 0"
  shows "R_th1 n =
           chi2cdf_inv (1 - 1 / 10 ^ 12) (2 * unat n * (2 * DS_COMB_ARM + 1)) \<and>
         0 \<le> R_th1 n \<and>
         chi2cdf (2 * unat n * (2 * DS_COMB_ARM + 1)) (R_th1 n) = 1 - 1 / 10 ^ 12 \<and>
         (\<forall>x. 0 \<le> x \<and> chi2cdf (2 * unat n * (2 * DS_COMB_ARM + 1)) x = 1 - 1 / 10 ^ 12
               \<longrightarrow> x = R_th1 n) \<and>
         length (Z_th1 FS_LTE sp n) = length sp \<and>
         (\<forall>i<length sp. Z_th1 FS_LTE sp n ! i =
            R_th1 n * (sp ! i) / (rx_cutoff FS_LTE * 137 * 2) / real (unat n)
              / real (2 * DS_COMB_ARM + 1))"
proof -
  have 1: "R_th1 n =
           chi2cdf_inv (1 - 1 / 10 ^ 12) (2 * unat n * (2 * DS_COMB_ARM + 1))"
    by (simp only: R_th1_def thresh1_prob)
  have 2: "length (Z_th1 FS_LTE sp n) = length sp" by (simp add: Z_th1_def)
  have 3: "0 \<le> R_th1 n"
    and 4: "chi2cdf (2 * unat n * (2 * DS_COMB_ARM + 1)) (R_th1 n) = 1 - 1 / 10 ^ 12"
    unfolding thresh1_dof using R_th1_props(1,2) [OF assms] by blast+
  have 5: "\<forall>x. 0 \<le> x \<and> chi2cdf (2 * unat n * (2 * DS_COMB_ARM + 1)) x = 1 - 1 / 10 ^ 12
               \<longrightarrow> x = R_th1 n"
    unfolding thresh1_dof using R_th1_props(3) [OF assms] by blast
  have 6: "\<forall>i<length sp. Z_th1 FS_LTE sp n ! i =
            R_th1 n * (sp ! i) / (rx_cutoff FS_LTE * 137 * 2) / real (unat n)
              / real (2 * DS_COMB_ARM + 1)"
    by (simp add: Z_th1_def)
  from 1 2 3 4 5 6 show ?thesis by blast
qed

theorem Z_th1_formula_witness:
  "(1 :: 16 word) \<noteq> 0 \<and>
   R_th1 1 = chi2cdf_inv (1 - 1 / 10 ^ 12) 10 \<and>
   chi2cdf 10 (R_th1 1) = 1 - 1 / 10 ^ 12 \<and>
   Z_th1 30720000 [1, 4] 1 = [R_th1 1 / (5 / 8 * 137 * 2) / 1 / 5, R_th1 1 * 4 / (5 / 8 * 137 * 2) / 1 / 5]"
proof -
  have a: "(1 :: 16 word) \<noteq> 0" by simp
  have k: "2 * unat (1 :: 16 word) * (2 * DS_COMB_ARM + 1) = 10"
    by (simp add: DS_COMB_ARM_def)
  have z: "Z_th1 30720000 [1, 4] 1 = [R_th1 1 / (5 / 8 * 137 * 2) / 1 / 5, R_th1 1 * 4 / (5 / 8 * 137 * 2) / 1 / 5]"
    by (simp add: Z_th1_def rx_cutoff_def DS_COMB_ARM_def)
  have "R_th1 1 = chi2cdf_inv (1 - 1 / 10 ^ 12) (2 * unat (1 :: 16 word) * (2 * DS_COMB_ARM + 1))"
    and "chi2cdf (2 * unat (1 :: 16 word) * (2 * DS_COMB_ARM + 1)) (R_th1 1) = 1 - 1 / 10 ^ 12"
    using Z_th1_formula [OF a, of 30720000 "[1, 4]"] by blast+
  then show ?thesis using a z unfolding k by blast
qed


end
